theory Spec2Isabelle
  imports Complex_Main "HOL-Library.AList"
begin

section \<open>Values of a decoded JSON document\<close>

text \<open>
  \<^verbatim>\<open>json.load\<close> turns a document into Python values: \<^verbatim>\<open>None\<close>, booleans, unbounded
  integers, floats, strings, lists and dictionaries with string keys. A dictionary keeps
  its insertion order, so it is an association list. A float is either a finite rational
  value or one of the three special values the decoder also produces.
\<close>

datatype pyfloat = Finite rat | NaN | Infinity bool

datatype json =
    JNull
  | JBool bool
  | JInt int
  | JFloat pyfloat
  | JStr string
  | JList "json list"
  | JObj "(string \<times> json) list"

text \<open>
  Exceptions are values. A \<^verbatim>\<open>ValueError\<close> carries which message it was raised with, the
  other classes are raised by built-in operations only.
\<close>

datatype message =
    MustBeObject string
  | MissingRequiredKey string string
  | MustBeList string string
  | ImageWithoutId
  | AnnotationWithoutImageId
  | UnknownImageId int
  | InvalidLiteral
  | FloatNaN

datatype error = KeyError | TypeError | AttributeError | OverflowError | ValueError message

section \<open>Built-in operations used by the scripts\<close>

subsection \<open>\<^verbatim>\<open>int(x)\<close>\<close>

definition is_digit :: "char \<Rightarrow> bool" where
  "is_digit c = (c \<in> set ''0123456789'')"

definition digit_val :: "char \<Rightarrow> nat" where
  "digit_val c = of_char c - 48"

text \<open>
  The characters \<^verbatim>\<open>int\<close> passes over at both ends of an ASCII string: tab, line feed,
  vertical tab, form feed, carriage return and space.
\<close>

definition is_space :: "char \<Rightarrow> bool" where
  "is_space c = (of_char c \<in> set [9, 10, 11, 12, 13, 32 :: nat])"

text \<open>Digits with single underscores between them, read in base ten.\<close>

fun parse_digits :: "nat \<Rightarrow> string \<Rightarrow> nat option" where
  "parse_digits acc [] = Some acc"
| "parse_digits acc [c] = (if is_digit c then Some (10 * acc + digit_val c) else None)"
| "parse_digits acc (c # d # ds) =
     (if is_digit c then parse_digits (10 * acc + digit_val c) (d # ds)
      else if c = CHR ''_'' \<and> is_digit d then parse_digits (10 * acc + digit_val d) ds
      else None)"

definition parse_unsigned :: "string \<Rightarrow> nat option" where
  "parse_unsigned s =
     (case s of [] \<Rightarrow> None
      | c # cs \<Rightarrow> if is_digit c then parse_digits (digit_val c) cs else None)"

definition strip :: "string \<Rightarrow> string" where
  "strip s = rev (dropWhile is_space (rev (dropWhile is_space s)))"

definition parse_int :: "string \<Rightarrow> int option" where
  "parse_int s =
     (case strip s of
        [] \<Rightarrow> None
      | c # cs \<Rightarrow>
          if c = CHR ''-'' then map_option (\<lambda>n. - int n) (parse_unsigned cs)
          else if c = CHR ''+'' then map_option int (parse_unsigned cs)
          else map_option int (parse_unsigned (c # cs)))"

text \<open>
  \<^verbatim>\<open>int\<close> on a string. A string of at most 4300 ASCII characters is read as a decimal
  numeral as above. Past that the interpreter may refuse a numeral for its number of digits,
  and outside ASCII other characters count as spaces and digits; what \<^verbatim>\<open>int\<close> returns
  there is left open, so that nothing proved below depends on it.
\<close>

definition is_ascii :: "string \<Rightarrow> bool" where
  "is_ascii s = list_all (\<lambda>c. of_char c < (128 :: nat)) s"

definition int_of_str :: "string \<Rightarrow> int option" where
  "int_of_str s = (if is_ascii s \<and> length s \<le> 4300 then parse_int s else undefined s)"

fun python_int :: "json \<Rightarrow> error + int" where
  "python_int (JInt n) = Inr n"
| "python_int (JBool b) = Inr (if b then 1 else 0)"
| "python_int (JFloat (Finite q)) = Inr (if 0 \<le> q then \<lfloor>q\<rfloor> else \<lceil>q\<rceil>)"
| "python_int (JFloat NaN) = Inl (ValueError FloatNaN)"
| "python_int (JFloat (Infinity _)) = Inl OverflowError"
| "python_int (JStr s) =
     (case int_of_str s of None \<Rightarrow> Inl (ValueError InvalidLiteral) | Some n \<Rightarrow> Inr n)"
| "python_int JNull = Inl TypeError"
| "python_int (JList _) = Inl TypeError"
| "python_int (JObj _) = Inl TypeError"

subsection \<open>Subscripting and membership with a string key\<close>

fun is_substring :: "string \<Rightarrow> string \<Rightarrow> bool" where
  "is_substring p [] = (p = [])"
| "is_substring p (c # cs) = (take (length p) (c # cs) = p \<or> is_substring p cs)"

fun py_getitem :: "json \<Rightarrow> string \<Rightarrow> error + json" where
  "py_getitem (JObj fs) k = (case map_of fs k of None \<Rightarrow> Inl KeyError | Some v \<Rightarrow> Inr v)"
| "py_getitem _ k = Inl TypeError"

fun py_in :: "string \<Rightarrow> json \<Rightarrow> error + bool" where
  "py_in k (JObj fs) = Inr (k \<in> set (map fst fs))"
| "py_in k (JList xs) = Inr (JStr k \<in> set xs)"
| "py_in k (JStr s) = Inr (is_substring k s)"
| "py_in k _ = Inl TypeError"

fun py_setitem :: "json \<Rightarrow> string \<Rightarrow> json \<Rightarrow> error + json" where
  "py_setitem (JObj fs) k v = Inr (JObj (AList.update k v fs))"
| "py_setitem _ k v = Inl TypeError"

text \<open>\<^verbatim>\<open>d.pop(k, None)\<close>, keeping the dictionary that is left.\<close>

fun py_pop :: "json \<Rightarrow> string \<Rightarrow> error + json" where
  "py_pop (JObj fs) k = Inr (JObj (AList.delete k fs))"
| "py_pop (JList xs) k = Inl TypeError"
| "py_pop _ k = Inl AttributeError"

text \<open>An exception raised by the first computation ends the second before it starts.\<close>

definition bind_err :: "error + 'a \<Rightarrow> ('a \<Rightarrow> error + 'b) \<Rightarrow> error + 'b" where
  "bind_err r f = (case r of Inl e \<Rightarrow> Inl e | Inr x \<Rightarrow> f x)"

text \<open>
  \<^verbatim>\<open>copy.deepcopy\<close> builds an equal value out of fresh objects; on values it is the
  identity.
\<close>

definition deepcopy :: "json \<Rightarrow> json" where
  "deepcopy v = v"

section \<open>\<^verbatim>\<open>merge_annotations.py\<close>\<close>

subsection \<open>\<^verbatim>\<open>get_max_id\<close>\<close>

text \<open>
  The loop keeps the running maximum, starting at 0. An item whose key is missing or
  whose value \<^verbatim>\<open>int\<close> rejects with one of the three caught classes is passed over;
  any other exception leaves the function.
\<close>

fun get_max_id_from :: "int \<Rightarrow> json list \<Rightarrow> string \<Rightarrow> error + int" where
  "get_max_id_from max_id [] key = Inr max_id"
| "get_max_id_from max_id (item # items) key =
     (case (case py_getitem item key of Inl e \<Rightarrow> Inl e | Inr v \<Rightarrow> python_int v) of
        Inl OverflowError \<Rightarrow> Inl OverflowError
      | Inl _ \<Rightarrow> get_max_id_from max_id items key
      | Inr val \<Rightarrow> get_max_id_from (if val > max_id then val else max_id) items key)"

definition get_max_id :: "json list \<Rightarrow> string \<Rightarrow> error + int" where
  "get_max_id items key = get_max_id_from 0 items key"

subsection \<open>\<^verbatim>\<open>validate_coco_like\<close>\<close>

fun validate_keys :: "(string \<times> json) list \<Rightarrow> string \<Rightarrow> string list \<Rightarrow> error + unit" where
  "validate_keys fs label [] = Inr ()"
| "validate_keys fs label (key # keys) =
     (case map_of fs key of
        None \<Rightarrow> Inl (ValueError (MissingRequiredKey label key))
      | Some (JList _) \<Rightarrow> validate_keys fs label keys
      | Some _ \<Rightarrow> Inl (ValueError (MustBeList label key)))"

fun validate_coco_like :: "json \<Rightarrow> string \<Rightarrow> error + unit" where
  "validate_coco_like (JObj fs) label = validate_keys fs label [''images'', ''annotations'']"
| "validate_coco_like _ label = Inl (ValueError (MustBeObject label))"

subsection \<open>\<^verbatim>\<open>build_image_id_mapping\<close>\<close>

text \<open>
  The body of the loop, for one image \<open>img\<close>: the new record and the pair it adds to
  \<^verbatim>\<open>old_to_new\<close>.
\<close>

definition remap_image :: "json \<Rightarrow> int \<Rightarrow> error + (json \<times> int \<times> int)" where
  "remap_image img image_id_offset =
     bind_err (py_in ''id'' img) (\<lambda>present.
       if \<not> present then Inl (ValueError ImageWithoutId)
       else
         bind_err (py_getitem img ''id'') (\<lambda>v.
         bind_err (python_int v) (\<lambda>old_id.
           let new_id = old_id + image_id_offset in
           bind_err (py_setitem (deepcopy img) ''id'' (JInt new_id)) (\<lambda>new_image.
             Inr (new_image, old_id, new_id)))))"

fun build_image_id_mapping_from ::
  "json list \<Rightarrow> (int \<rightharpoonup> int) \<Rightarrow> json list \<Rightarrow> int \<Rightarrow> error + (json list \<times> (int \<rightharpoonup> int))" where
  "build_image_id_mapping_from updated_images old_to_new [] image_id_offset =
     Inr (updated_images, old_to_new)"
| "build_image_id_mapping_from updated_images old_to_new (img # images_b) image_id_offset =
     bind_err (remap_image img image_id_offset) (\<lambda>(new_image, old_id, new_id).
       build_image_id_mapping_from (updated_images @ [new_image]) (old_to_new(old_id \<mapsto> new_id))
         images_b image_id_offset)"

definition build_image_id_mapping ::
  "json list \<Rightarrow> int \<Rightarrow> error + (json list \<times> (int \<rightharpoonup> int))" where
  "build_image_id_mapping images_b image_id_offset =
     build_image_id_mapping_from [] Map.empty images_b image_id_offset"

subsection \<open>\<^verbatim>\<open>remap_annotations\<close>\<close>

text \<open>
  The \<^verbatim>\<open>try\<close> block around the annotation's own id: a \<^verbatim>\<open>TypeError\<close> or a
  \<^verbatim>\<open>ValueError\<close> removes the key from the copy, any other exception leaves the function.
\<close>

definition offset_annotation_id :: "json \<Rightarrow> json \<Rightarrow> int \<Rightarrow> error + json" where
  "offset_annotation_id ann new_ann annotation_id_offset =
     (case bind_err (py_getitem ann ''id'') (\<lambda>v.
           bind_err (python_int v) (\<lambda>n.
             py_setitem new_ann ''id'' (JInt (n + annotation_id_offset)))) of
        Inr new_ann' \<Rightarrow> Inr new_ann'
      | Inl TypeError \<Rightarrow> py_pop new_ann ''id''
      | Inl (ValueError _) \<Rightarrow> py_pop new_ann ''id''
      | Inl e \<Rightarrow> Inl e)"

definition remap_annotation :: "json \<Rightarrow> (int \<rightharpoonup> int) \<Rightarrow> int \<Rightarrow> error + json" where
  "remap_annotation ann image_id_map annotation_id_offset =
     bind_err (py_in ''image_id'' ann) (\<lambda>present.
       if \<not> present then Inl (ValueError AnnotationWithoutImageId)
       else
         bind_err (py_getitem ann ''image_id'') (\<lambda>v.
         bind_err (python_int v) (\<lambda>old_image_id.
           case image_id_map old_image_id of
             None \<Rightarrow> Inl (ValueError (UnknownImageId old_image_id))
           | Some new_image_id \<Rightarrow>
               bind_err (py_setitem (deepcopy ann) ''image_id'' (JInt new_image_id)) (\<lambda>new_ann.
               bind_err (py_in ''id'' ann) (\<lambda>has_id.
                 if has_id then offset_annotation_id ann new_ann annotation_id_offset
                 else Inr new_ann)))))"

fun remap_annotations_from ::
  "json list \<Rightarrow> json list \<Rightarrow> (int \<rightharpoonup> int) \<Rightarrow> int \<Rightarrow> error + json list" where
  "remap_annotations_from updated_annotations [] image_id_map annotation_id_offset =
     Inr updated_annotations"
| "remap_annotations_from updated_annotations (ann # annotations_b) image_id_map
       annotation_id_offset =
     bind_err (remap_annotation ann image_id_map annotation_id_offset) (\<lambda>new_ann.
       remap_annotations_from (updated_annotations @ [new_ann]) annotations_b image_id_map
         annotation_id_offset)"

definition remap_annotations ::
  "json list \<Rightarrow> (int \<rightharpoonup> int) \<Rightarrow> int \<Rightarrow> error + json list" where
  "remap_annotations annotations_b image_id_map annotation_id_offset =
     remap_annotations_from [] annotations_b image_id_map annotation_id_offset"

subsection \<open>\<^verbatim>\<open>merge_instances\<close>\<close>

text \<open>
  After validation both payloads are dictionaries whose \<^verbatim>\<open>images\<close> and
  \<^verbatim>\<open>annotations\<close> are lists; \<open>list_of\<close> reads such an entry, and raises where the
  entry is no list, which validation has excluded.
\<close>

definition list_of :: "json \<Rightarrow> string \<Rightarrow> error + json list" where
  "list_of payload key =
     bind_err (py_getitem payload key) (\<lambda>v. case v of JList xs \<Rightarrow> Inr xs | _ \<Rightarrow> Inl TypeError)"

text \<open>The first loop over the three preserved keys.\<close>

fun copy_common :: "(string \<times> json) list \<Rightarrow> string list \<Rightarrow> (string \<times> json) list \<Rightarrow> (string \<times> json) list" where
  "copy_common a [] merged = merged"
| "copy_common a (key # keys) merged =
     copy_common a keys
       (case map_of a key of None \<Rightarrow> merged | Some v \<Rightarrow> AList.update key (deepcopy v) merged)"

text \<open>The last loop, over the items of the first payload in their order.\<close>

fun carry_over :: "(string \<times> json) list \<Rightarrow> (string \<times> json) list \<Rightarrow> (string \<times> json) list" where
  "carry_over [] merged = merged"
| "carry_over ((key, v) # items) merged =
     carry_over items
       (if key \<in> set (map fst merged) then merged else AList.update key (deepcopy v) merged)"

text \<open>
  The warning printed on standard error when both payloads have \<^verbatim>\<open>categories\<close> and they
  differ changes nothing in the returned dictionary and is left out.
\<close>

definition merge_instances :: "json \<Rightarrow> json \<Rightarrow> error + json" where
  "merge_instances a b =
     bind_err (validate_coco_like a ''First JSON'') (\<lambda>_.
     bind_err (validate_coco_like b ''Second JSON'') (\<lambda>_.
     bind_err (list_of a ''images'') (\<lambda>images_a.
     bind_err (list_of a ''annotations'') (\<lambda>annotations_a.
     bind_err (list_of b ''images'') (\<lambda>images_b.
     bind_err (list_of b ''annotations'') (\<lambda>annotations_b.
     bind_err (get_max_id images_a ''id'') (\<lambda>max_image_id_a.
     bind_err (get_max_id annotations_a ''id'') (\<lambda>max_ann_id_a.
     bind_err (build_image_id_mapping images_b max_image_id_a) (\<lambda>(updated_images_b, image_id_map).
     bind_err (remap_annotations annotations_b image_id_map max_ann_id_a) (\<lambda>updated_annotations_b.
       case a of
         JObj items_a \<Rightarrow>
           let merged = copy_common items_a [''info'', ''licenses'', ''categories''] [];
               merged = AList.update ''images''
                          (JList (map deepcopy images_a @ updated_images_b)) merged;
               merged = AList.update ''annotations''
                          (JList (map deepcopy annotations_a @ updated_annotations_b)) merged
           in Inr (JObj (carry_over items_a merged))
       | _ \<Rightarrow> Inl TypeError))))))))))"

section \<open>\<^verbatim>\<open>convert_coco_to_masks.py\<close>: the label of an instance mask\<close>

text \<open>Truth value of a decoded value, as \<^verbatim>\<open>or\<close> tests it.\<close>

fun py_truthy :: "json \<Rightarrow> bool" where
  "py_truthy JNull = False"
| "py_truthy (JBool b) = b"
| "py_truthy (JInt n) = (n \<noteq> 0)"
| "py_truthy (JFloat x) = (x \<noteq> Finite 0)"
| "py_truthy (JStr s) = (s \<noteq> [])"
| "py_truthy (JList xs) = (xs \<noteq> [])"
| "py_truthy (JObj fs) = (fs \<noteq> [])"

definition py_or :: "json \<Rightarrow> json \<Rightarrow> json" where
  "py_or x y = (if py_truthy x then x else y)"

definition py_get :: "(string \<times> json) list \<Rightarrow> string \<Rightarrow> json \<Rightarrow> json" where
  "py_get d k dflt = (case map_of d k of None \<Rightarrow> dflt | Some v \<Rightarrow> v)"

text \<open>Lines 83 to 85 of \<^verbatim>\<open>save_instance_masks\<close>, for the annotation \<open>ann\<close>.\<close>

definition instance_label :: "(string \<times> json) list \<Rightarrow> json" where
  "instance_label ann =
     (let inst_id = py_or (py_or (py_get ann ''id'' JNull) (py_get ann ''instance_id'' JNull))
                      (py_get ann ''annId'' JNull)
      in if inst_id = JNull then py_get ann ''category_id'' (JInt 0) else inst_id)"

section \<open>The data model of the specification\<close>

text \<open>
  An image record carries an integer \<^verbatim>\<open>id\<close> that is not negative; an annotation record
  carries an integer \<^verbatim>\<open>image_id\<close> and, when it has an \<^verbatim>\<open>id\<close> of its own, an integer
  one. In a dataset the image ids are unique, every annotation refers to an image of the
  same dataset, and the annotation ids that are present are unique.
\<close>

fun int_field :: "string \<Rightarrow> json \<Rightarrow> int option" where
  "int_field key (JObj fs) = (case map_of fs key of Some (JInt n) \<Rightarrow> Some n | _ \<Rightarrow> None)"
| "int_field key _ = None"

definition typed_image :: "json \<Rightarrow> bool" where
  "typed_image img = (case int_field ''id'' img of Some n \<Rightarrow> 0 \<le> n | None \<Rightarrow> False)"

fun typed_annotation :: "json \<Rightarrow> bool" where
  "typed_annotation (JObj fs) =
     ((case map_of fs ''image_id'' of Some (JInt k) \<Rightarrow> True | _ \<Rightarrow> False) \<and>
      (case map_of fs ''id'' of None \<Rightarrow> True | Some (JInt n) \<Rightarrow> True | Some _ \<Rightarrow> False))"
| "typed_annotation _ = False"

definition ids_of :: "string \<Rightarrow> json list \<Rightarrow> int list" where
  "ids_of key records = List.map_filter (int_field key) records"

definition refers_to :: "int list \<Rightarrow> json \<Rightarrow> bool" where
  "refers_to ids ann = (case int_field ''image_id'' ann of Some k \<Rightarrow> k \<in> set ids | None \<Rightarrow> False)"

definition dataset_images :: "json \<Rightarrow> json list" where
  "dataset_images d = (case list_of d ''images'' of Inr xs \<Rightarrow> xs | Inl _ \<Rightarrow> [])"

definition dataset_annotations :: "json \<Rightarrow> json list" where
  "dataset_annotations d = (case list_of d ''annotations'' of Inr xs \<Rightarrow> xs | Inl _ \<Rightarrow> [])"

definition valid_dataset :: "json \<Rightarrow> bool" where
  "valid_dataset d =
     (validate_coco_like d ''dataset'' = Inr () \<and>
      list_all typed_image (dataset_images d) \<and>
      distinct (ids_of ''id'' (dataset_images d)) \<and>
      list_all typed_annotation (dataset_annotations d) \<and>
      list_all (refers_to (ids_of ''id'' (dataset_images d))) (dataset_annotations d) \<and>
      distinct (ids_of ''id'' (dataset_annotations d)))"

text \<open>
  What the specification asks of the remapped records of the second dataset: the image id
  moved by the image offset, the annotation's reference moved likewise and its own id,
  when it has one, moved by the annotation offset; every other field as it was.
\<close>

fun shift_field :: "string \<Rightarrow> int \<Rightarrow> json \<Rightarrow> json" where
  "shift_field key off (JObj fs) =
     (case map_of fs key of
        Some (JInt n) \<Rightarrow> JObj (AList.update key (JInt (n + off)) fs)
      | _ \<Rightarrow> JObj fs)"
| "shift_field key off v = v"

definition shift_image :: "int \<Rightarrow> json \<Rightarrow> json" where
  "shift_image image_offset img = shift_field ''id'' image_offset img"

definition shift_annotation :: "int \<Rightarrow> int \<Rightarrow> json \<Rightarrow> json" where
  "shift_annotation image_offset ann_offset ann =
     shift_field ''id'' ann_offset (shift_field ''image_id'' image_offset ann)"

section \<open>Loops that stop at the first exception\<close>

text \<open>
  Both remapping loops apply a fallible step to every element in order and stop at the
  first exception; \<open>map_err\<close> is that pattern on its own, used to state what the loops
  compute.
\<close>

fun map_err :: "('a \<Rightarrow> error + 'b) \<Rightarrow> 'a list \<Rightarrow> error + 'b list" where
  "map_err f [] = Inr []"
| "map_err f (x # xs) =
     bind_err (f x) (\<lambda>y. bind_err (map_err f xs) (\<lambda>ys. Inr (y # ys)))"

text \<open>
  The dictionary \<^verbatim>\<open>old_to_new\<close> after the pairs of a run of the image loop have been
  stored in it, and the dictionary \<^verbatim>\<open>merge_instances\<close> returns once the two lists are
  known.
\<close>

definition add_pairs :: "(json \<times> int \<times> int) list \<Rightarrow> (int \<rightharpoonup> int) \<Rightarrow> (int \<rightharpoonup> int)" where
  "add_pairs rs m = fold (\<lambda>(new_image, old_id, new_id) m. m(old_id \<mapsto> new_id)) rs m"

definition assemble ::
  "(string \<times> json) list \<Rightarrow> json list \<Rightarrow> json list \<Rightarrow> (string \<times> json) list" where
  "assemble items_a images annotations =
     carry_over items_a
       (AList.update ''annotations'' (JList annotations)
         (AList.update ''images'' (JList images)
           (copy_common items_a [''info'', ''licenses'', ''categories''] [])))"

section \<open>Records as the loops meet them\<close>

text \<open>
  \<open>old_id\<close> is \<^verbatim>\<open>int(image["id"])\<close> where the record has the key and \<^verbatim>\<open>int\<close> accepts
  its value. An image record either lacks the key or has such an id.
\<close>

fun old_id :: "json \<Rightarrow> int option" where
  "old_id (JObj fs) =
     (case map_of fs ''id'' of
        None \<Rightarrow> None
      | Some v \<Rightarrow> (case python_int v of Inr n \<Rightarrow> Some n | Inl _ \<Rightarrow> None))"
| "old_id _ = None"

fun lacks_id :: "json \<Rightarrow> bool" where
  "lacks_id (JObj fs) = (map_of fs ''id'' = None)"
| "lacks_id _ = False"

definition image_record :: "json \<Rightarrow> bool" where
  "image_record img = (lacks_id img \<or> old_id img \<noteq> None)"

fun set_id :: "int \<Rightarrow> json \<Rightarrow> json" where
  "set_id n (JObj fs) = JObj (AList.update ''id'' (JInt n) fs)"
| "set_id n v = v"

section \<open>Example datasets\<close>

definition example_a :: json where
  "example_a = JObj
     [(''images'', JList [JObj [(''id'', JInt 1), (''file_name'', JStr ''a1.png'')],
                          JObj [(''id'', JInt 2), (''file_name'', JStr ''a2.png'')]]),
      (''annotations'', JList [JObj [(''id'', JInt 1), (''image_id'', JInt 2),
                                     (''category_id'', JInt 1)]]),
      (''categories'', JList [JObj [(''id'', JInt 1), (''name'', JStr ''fiber'')]])]"

definition example_b :: json where
  "example_b = JObj
     [(''images'', JList [JObj [(''id'', JInt 1), (''file_name'', JStr ''b1.png'')]]),
      (''annotations'', JList [JObj [(''id'', JInt 1), (''image_id'', JInt 1)],
                               JObj [(''image_id'', JInt 1), (''category_id'', JInt 1)]])]"

definition example_empty :: json where
  "example_empty = JObj [(''images'', JList []), (''annotations'', JList [])]"

text \<open>A second dataset whose only image has the id 0.\<close>

definition example_zero :: json where
  "example_zero = JObj
     [(''images'', JList [JObj [(''id'', JInt 0), (''file_name'', JStr ''z.png'')]]),
      (''annotations'', JList [JObj [(''id'', JInt 0), (''image_id'', JInt 0)]])]"

section \<open>Annotations as the loop meets them\<close>

text \<open>
  An annotation is dangling with respect to the keys of the image id mapping when it has no
  \<^verbatim>\<open>image_id\<close>, or has one whose integer value is none of the keys. An annotation record
  is a dictionary whose \<^verbatim>\<open>image_id\<close>, when present, \<^verbatim>\<open>int\<close> accepts, and whose own
  \<^verbatim>\<open>id\<close>, when present, is any value but an infinite float.
\<close>

fun dangling :: "int list \<Rightarrow> json \<Rightarrow> bool" where
  "dangling keys (JObj fs) =
     (case map_of fs ''image_id'' of
        None \<Rightarrow> True
      | Some v \<Rightarrow> (case python_int v of Inr k \<Rightarrow> k \<notin> set keys | Inl _ \<Rightarrow> False))"
| "dangling keys _ = False"

fun annotation_record :: "json \<Rightarrow> bool" where
  "annotation_record (JObj fs) =
     ((case map_of fs ''image_id'' of
         None \<Rightarrow> True
       | Some v \<Rightarrow> (case python_int v of Inr _ \<Rightarrow> True | Inl _ \<Rightarrow> False)) \<and>
      (case map_of fs ''id'' of None \<Rightarrow> True | Some v \<Rightarrow> python_int v \<noteq> Inl OverflowError))"
| "annotation_record _ = False"

definition example_dangling :: json where
  "example_dangling = JObj
     [(''images'', JList [JObj [(''id'', JInt 1), (''file_name'', JStr ''b1.png'')]]),
      (''annotations'', JList [JObj [(''id'', JInt 1), (''image_id'', JInt 1)],
                               JObj [(''id'', JInt 2), (''image_id'', JInt 7)]])]"





section \<open>\<^verbatim>\<open>convert_coco_to_masks.py\<close>: the union mask\<close>

text \<open>
  \<^verbatim>\<open>ann_to_mask\<close> calls three functions of the mask library, which is no part of the
  repository. The library enters the model through its interface: what it computes is a
  parameter, the shape of what it accepts and returns is written out.
  \<^item> \<^verbatim>\<open>frPyObjects\<close> encodes a list of polygons, boxes or run-length dictionaries into a
    list of encoded masks, one for each element, and a single dictionary into a single
    encoded mask.
  \<^item> \<^verbatim>\<open>merge\<close> takes a list of encoded masks and reads the \<^verbatim>\<open>counts\<close> and the
    \<^verbatim>\<open>size\<close> of every element by subscripting before it combines them.
  \<^item> \<^verbatim>\<open>decode\<close> returns an array of two dimensions for one encoded mask and of three
    for a list of them.
  An encoded mask is a dictionary and is carried as a decoded JSON value.
\<close>

datatype ndarray = Array2 "nat list list" | Array3 "nat list list list"

record mask_library =
  encode_list :: "json list \<Rightarrow> int \<Rightarrow> int \<Rightarrow> error + json list"
  encode_one :: "json \<Rightarrow> int \<Rightarrow> int \<Rightarrow> error + json"
  combine :: "json list \<Rightarrow> error + json"
  decode :: "json \<Rightarrow> error + ndarray"

fun frPyObjects :: "mask_library \<Rightarrow> json \<Rightarrow> int \<Rightarrow> int \<Rightarrow> error + json" where
  "frPyObjects lib (JList pyobj) h w =
     (case encode_list lib pyobj h w of Inl e \<Rightarrow> Inl e | Inr objs \<Rightarrow> Inr (JList objs))"
| "frPyObjects lib pyobj h w = encode_one lib pyobj h w"

definition mask_merge :: "mask_library \<Rightarrow> json list \<Rightarrow> error + json" where
  "mask_merge lib rleObjs =
     bind_err (map_err (\<lambda>obj. bind_err (py_getitem obj ''counts'') (\<lambda>counts.
                             bind_err (py_getitem obj ''size'') (\<lambda>size. Inr obj))) rleObjs)
       (\<lambda>objs. combine lib objs)"

text \<open>The body of the \<^verbatim>\<open>try\<close> block: the encoded form of one segmentation.\<close>

fun encode_segmentation :: "mask_library \<Rightarrow> json \<Rightarrow> int \<Rightarrow> int \<Rightarrow> error + json" where
  "encode_segmentation lib (JList xs) h w = frPyObjects lib (JList xs) h w"
| "encode_segmentation lib (JObj fs) h w =
     (case py_get fs ''counts'' JNull of
        JList counts \<Rightarrow> frPyObjects lib (JObj fs) h w
      | _ \<Rightarrow> Inr (JObj fs))"
| "encode_segmentation lib segm h w = Inl AttributeError"

text \<open>The loop that collects \<^verbatim>\<open>rles\<close>; any exception of the body skips the annotation.\<close>

fun collect_rles :: "mask_library \<Rightarrow> int \<Rightarrow> int \<Rightarrow> json list \<Rightarrow> json list \<Rightarrow> error + json list" where
  "collect_rles lib h w rles [] = Inr rles"
| "collect_rles lib h w rles (JObj ann # anns) =
     (case py_get ann ''segmentation'' JNull of
        JNull \<Rightarrow> collect_rles lib h w rles anns
      | segm \<Rightarrow>
          (case encode_segmentation lib segm h w of
             Inl e \<Rightarrow> collect_rles lib h w rles anns
           | Inr rle \<Rightarrow> collect_rles lib h w (rles @ [rle]) anns))"
| "collect_rles lib h w rles (ann # anns) = Inl AttributeError"

definition zeros :: "int \<Rightarrow> int \<Rightarrow> nat list list" where
  "zeros h w = replicate (nat h) (replicate (nat w) 0)"

text \<open>\<^verbatim>\<open>np.any(m, axis=2)\<close> where the array has three dimensions, then \<^verbatim>\<open>astype(np.uint8) * 255\<close>.\<close>

fun flatten_last :: "ndarray \<Rightarrow> nat list list" where
  "flatten_last (Array2 m) = m"
| "flatten_last (Array3 m) = map (map (\<lambda>cell. if \<exists>x \<in> set cell. x \<noteq> 0 then 1 else 0)) m"

definition scale_255 :: "nat list list \<Rightarrow> nat list list" where
  "scale_255 m = map (map (\<lambda>x. (x mod 256) * 255 mod 256)) m"

definition ann_to_mask :: "mask_library \<Rightarrow> int \<Rightarrow> int \<Rightarrow> json list \<Rightarrow> error + nat list list" where
  "ann_to_mask lib h w anns =
     (if length anns = 0 then Inr (zeros h w)
      else
        bind_err (collect_rles lib h w [] anns) (\<lambda>rles.
          if length rles = 0 then Inr (zeros h w)
          else
            bind_err (mask_merge lib rles) (\<lambda>merged.
            bind_err (decode lib merged) (\<lambda>m.
              Inr (scale_255 (flatten_last m))))))"

section \<open>The merge on a store of objects\<close>

text \<open>
  Lists and dictionaries are objects with an identity: a value is an atom or the address of
  an object, and the store is the list of all objects, an address being a position in it.
  A new object goes to the end of the store. The functions of \<^verbatim>\<open>merge_annotations.py\<close>
  are written once more on the store, every read, allocation and assignment in the order of
  the source, so that which objects a call changes can be stated.
\<close>

type_synonym addr = nat

datatype val = VNull | VBool bool | VInt int | VFloat pyfloat | VStr string | VRef addr

datatype obj = OList "val list" | ODict "(string \<times> val) list"

type_synonym heap = "obj list"

subsection \<open>Documents in the store\<close>

text \<open>
  \<open>store\<close> builds a document out of new objects, as \<^verbatim>\<open>json.load\<close> does; \<open>read\<close>
  gives the document a value stands for, descending at most \<open>n\<close> objects deep.
\<close>

fun store :: "json \<Rightarrow> heap \<Rightarrow> val \<times> heap"
  and store_list :: "json list \<Rightarrow> heap \<Rightarrow> val list \<times> heap"
  and store_fields :: "(string \<times> json) list \<Rightarrow> heap \<Rightarrow> (string \<times> val) list \<times> heap" where
  "store JNull h = (VNull, h)"
| "store (JBool b) h = (VBool b, h)"
| "store (JInt n) h = (VInt n, h)"
| "store (JFloat x) h = (VFloat x, h)"
| "store (JStr s) h = (VStr s, h)"
| "store (JList xs) h = (case store_list xs h of (vs, h') \<Rightarrow> (VRef (length h'), h' @ [OList vs]))"
| "store (JObj fs) h = (case store_fields fs h of (gs, h') \<Rightarrow> (VRef (length h'), h' @ [ODict gs]))"
| "store_list [] h = ([], h)"
| "store_list (x # xs) h =
     (case store x h of (v, h1) \<Rightarrow> case store_list xs h1 of (vs, h2) \<Rightarrow> (v # vs, h2))"
| "store_fields [] h = ([], h)"
| "store_fields ((k, x) # fs) h =
     (case store x h of (v, h1) \<Rightarrow> case store_fields fs h1 of (gs, h2) \<Rightarrow> ((k, v) # gs, h2))"

fun all_some :: "'a option list \<Rightarrow> 'a list option" where
  "all_some [] = Some []"
| "all_some (None # xs) = None"
| "all_some (Some x # xs) = map_option ((#) x) (all_some xs)"

fun read :: "nat \<Rightarrow> heap \<Rightarrow> val \<Rightarrow> json option" where
  "read n h VNull = Some JNull"
| "read n h (VBool b) = Some (JBool b)"
| "read n h (VInt i) = Some (JInt i)"
| "read n h (VFloat x) = Some (JFloat x)"
| "read n h (VStr s) = Some (JStr s)"
| "read 0 h (VRef a) = None"
| "read (Suc n) h (VRef a) =
     (if a < length h then
        (case h ! a of
           OList vs \<Rightarrow> map_option JList (all_some (map (read n h) vs))
         | ODict fs \<Rightarrow>
             map_option JObj
               (all_some (map (\<lambda>(k, v). map_option (Pair k) (read n h v)) fs)))
      else None)"

subsection \<open>Computations on the store\<close>

text \<open>
  A computation takes the store and returns an exception or a value together with the
  store it leaves; \<open>None\<close> stands for a copy that did not come to an end within its
  bound.
\<close>

type_synonym 'a comp = "heap \<Rightarrow> ((error + 'a) \<times> heap) option"

definition hreturn :: "'a \<Rightarrow> 'a comp" where
  "hreturn x h = Some (Inr x, h)"

definition hraise :: "error \<Rightarrow> 'a comp" where
  "hraise e h = Some (Inl e, h)"

definition hlift :: "(heap \<Rightarrow> error + 'a) \<Rightarrow> 'a comp" where
  "hlift f h = Some (f h, h)"

definition hbind :: "'a comp \<Rightarrow> ('a \<Rightarrow> 'b comp) \<Rightarrow> 'b comp" where
  "hbind m f h =
     (case m h of
        None \<Rightarrow> None
      | Some (Inl e, h') \<Rightarrow> Some (Inl e, h')
      | Some (Inr x, h') \<Rightarrow> f x h')"

text \<open>Reads: subscripting, membership, the elements of a list, \<^verbatim>\<open>int\<close>.\<close>

definition h_getitem :: "val \<Rightarrow> string \<Rightarrow> heap \<Rightarrow> error + val" where
  "h_getitem v k h =
     (case v of
        VRef a \<Rightarrow>
          (if a < length h then
             (case h ! a of
                ODict fs \<Rightarrow> (case map_of fs k of None \<Rightarrow> Inl KeyError | Some x \<Rightarrow> Inr x)
              | OList xs \<Rightarrow> Inl TypeError)
           else Inl TypeError)
      | _ \<Rightarrow> Inl TypeError)"

definition h_in :: "string \<Rightarrow> val \<Rightarrow> heap \<Rightarrow> error + bool" where
  "h_in k v h =
     (case v of
        VRef a \<Rightarrow>
          (if a < length h then
             (case h ! a of
                ODict fs \<Rightarrow> Inr (k \<in> set (map fst fs))
              | OList xs \<Rightarrow> Inr (VStr k \<in> set xs))
           else Inl TypeError)
      | VStr s \<Rightarrow> Inr (is_substring k s)
      | _ \<Rightarrow> Inl TypeError)"

definition h_items :: "val \<Rightarrow> heap \<Rightarrow> error + val list" where
  "h_items v h =
     (case v of
        VRef a \<Rightarrow>
          (if a < length h then (case h ! a of OList xs \<Rightarrow> Inr xs | ODict fs \<Rightarrow> Inl TypeError)
           else Inl TypeError)
      | _ \<Rightarrow> Inl TypeError)"

definition h_fields :: "val \<Rightarrow> heap \<Rightarrow> error + (string \<times> val) list" where
  "h_fields v h =
     (case v of
        VRef a \<Rightarrow>
          (if a < length h then (case h ! a of ODict fs \<Rightarrow> Inr fs | OList xs \<Rightarrow> Inl TypeError)
           else Inl TypeError)
      | _ \<Rightarrow> Inl TypeError)"

fun h_int :: "val \<Rightarrow> error + int" where
  "h_int VNull = python_int JNull"
| "h_int (VBool b) = python_int (JBool b)"
| "h_int (VInt n) = python_int (JInt n)"
| "h_int (VFloat x) = python_int (JFloat x)"
| "h_int (VStr s) = python_int (JStr s)"
| "h_int (VRef a) = Inl TypeError"

text \<open>Allocation and the assignments that change an object in place.\<close>

definition h_new :: "obj \<Rightarrow> val comp" where
  "h_new ob h = Some (Inr (VRef (length h)), h @ [ob])"

definition h_setitem :: "val \<Rightarrow> string \<Rightarrow> val \<Rightarrow> unit comp" where
  "h_setitem d k x h =
     (case d of
        VRef a \<Rightarrow>
          (if a < length h then
             (case h ! a of
                ODict fs \<Rightarrow> Some (Inr (), h[a := ODict (AList.update k x fs)])
              | OList xs \<Rightarrow> Some (Inl TypeError, h))
           else Some (Inl TypeError, h))
      | _ \<Rightarrow> Some (Inl TypeError, h))"

definition h_pop :: "val \<Rightarrow> string \<Rightarrow> unit comp" where
  "h_pop d k h =
     (case d of
        VRef a \<Rightarrow>
          (if a < length h then
             (case h ! a of
                ODict fs \<Rightarrow> Some (Inr (), h[a := ODict (AList.delete k fs)])
              | OList xs \<Rightarrow> Some (Inl TypeError, h))
           else Some (Inl AttributeError, h))
      | _ \<Rightarrow> Some (Inl AttributeError, h))"

definition h_append :: "val \<Rightarrow> val \<Rightarrow> unit comp" where
  "h_append l x h =
     (case l of
        VRef a \<Rightarrow>
          (if a < length h then
             (case h ! a of
                OList xs \<Rightarrow> Some (Inr (), h[a := OList (xs @ [x])])
              | ODict fs \<Rightarrow> Some (Inl AttributeError, h))
           else Some (Inl AttributeError, h))
      | _ \<Rightarrow> Some (Inl AttributeError, h))"

text \<open>\<^verbatim>\<open>l1 + l2\<close> on two lists is a new list.\<close>

definition h_concat :: "val \<Rightarrow> val \<Rightarrow> val comp" where
  "h_concat l1 l2 =
     hbind (hlift (h_items l1)) (\<lambda>xs.
     hbind (hlift (h_items l2)) (\<lambda>ys.
       h_new (OList (xs @ ys))))"

text \<open>
  \<^verbatim>\<open>copy.deepcopy\<close> builds the document the value stands for out of new objects. An
  object that the value refers to twice is built twice here, where the source builds it
  once and refers to the copy twice; the objects written are new in both. The bound
  \<open>fuel\<close> limits how deep the copy descends.
\<close>

definition h_deepcopy :: "nat \<Rightarrow> val \<Rightarrow> val comp" where
  "h_deepcopy fuel v h =
     (case read fuel h v of
        None \<Rightarrow> None
      | Some j \<Rightarrow> (case store j h of (v', h') \<Rightarrow> Some (Inr v', h')))"

subsection \<open>The functions of \<^verbatim>\<open>merge_annotations.py\<close> on the store\<close>

fun h_validate_keys :: "val \<Rightarrow> string \<Rightarrow> string list \<Rightarrow> heap \<Rightarrow> error + unit" where
  "h_validate_keys payload label [] h = Inr ()"
| "h_validate_keys payload label (key # keys) h =
     (case h_getitem payload key h of
        Inl e \<Rightarrow> Inl (ValueError (MissingRequiredKey label key))
      | Inr v \<Rightarrow>
          (case h_items v h of
             Inl e \<Rightarrow> Inl (ValueError (MustBeList label key))
           | Inr xs \<Rightarrow> h_validate_keys payload label keys h))"

definition h_validate_coco_like :: "val \<Rightarrow> string \<Rightarrow> heap \<Rightarrow> error + unit" where
  "h_validate_coco_like payload label h =
     (case h_fields payload h of
        Inl e \<Rightarrow> Inl (ValueError (MustBeObject label))
      | Inr fs \<Rightarrow> h_validate_keys payload label [''images'', ''annotations''] h)"

fun h_get_max_id_from :: "int \<Rightarrow> val list \<Rightarrow> string \<Rightarrow> heap \<Rightarrow> error + int" where
  "h_get_max_id_from max_id [] key h = Inr max_id"
| "h_get_max_id_from max_id (item # items) key h =
     (case (case h_getitem item key h of Inl e \<Rightarrow> Inl e | Inr v \<Rightarrow> h_int v) of
        Inl OverflowError \<Rightarrow> Inl OverflowError
      | Inl _ \<Rightarrow> h_get_max_id_from max_id items key h
      | Inr val \<Rightarrow> h_get_max_id_from (if val > max_id then val else max_id) items key h)"

definition h_get_max_id :: "val \<Rightarrow> string \<Rightarrow> heap \<Rightarrow> error + int" where
  "h_get_max_id items key h =
     (case h_items items h of Inl e \<Rightarrow> Inl e | Inr xs \<Rightarrow> h_get_max_id_from 0 xs key h)"

definition h_remap_image :: "nat \<Rightarrow> val \<Rightarrow> int \<Rightarrow> (val \<times> int \<times> int) comp" where
  "h_remap_image fuel img image_id_offset =
     hbind (hlift (h_in ''id'' img)) (\<lambda>present.
       if \<not> present then hraise (ValueError ImageWithoutId)
       else
         hbind (hlift (h_getitem img ''id'')) (\<lambda>v.
         hbind (hlift (\<lambda>h. h_int v)) (\<lambda>old_id.
           let new_id = old_id + image_id_offset in
           hbind (h_deepcopy fuel img) (\<lambda>new_image.
           hbind (h_setitem new_image ''id'' (VInt new_id)) (\<lambda>_.
             hreturn (new_image, old_id, new_id))))))"

fun h_build_image_id_mapping_from ::
  "nat \<Rightarrow> val \<Rightarrow> (int \<rightharpoonup> int) \<Rightarrow> val list \<Rightarrow> int \<Rightarrow> (val \<times> (int \<rightharpoonup> int)) comp" where
  "h_build_image_id_mapping_from fuel updated_images old_to_new [] image_id_offset =
     hreturn (updated_images, old_to_new)"
| "h_build_image_id_mapping_from fuel updated_images old_to_new (img # images_b)
       image_id_offset =
     hbind (h_remap_image fuel img image_id_offset) (\<lambda>(new_image, old_id, new_id).
     hbind (h_append updated_images new_image) (\<lambda>_.
       h_build_image_id_mapping_from fuel updated_images (old_to_new(old_id \<mapsto> new_id))
         images_b image_id_offset))"

definition h_build_image_id_mapping ::
  "nat \<Rightarrow> val \<Rightarrow> int \<Rightarrow> (val \<times> (int \<rightharpoonup> int)) comp" where
  "h_build_image_id_mapping fuel images_b image_id_offset =
     hbind (h_new (OList [])) (\<lambda>updated_images.
     hbind (hlift (h_items images_b)) (\<lambda>imgs.
       h_build_image_id_mapping_from fuel updated_images Map.empty imgs image_id_offset))"

definition h_offset_annotation_id :: "val \<Rightarrow> val \<Rightarrow> int \<Rightarrow> unit comp" where
  "h_offset_annotation_id ann new_ann annotation_id_offset h =
     (case hbind (hlift (h_getitem ann ''id'')) (\<lambda>v.
           hbind (hlift (\<lambda>h. h_int v)) (\<lambda>n.
             h_setitem new_ann ''id'' (VInt (n + annotation_id_offset)))) h of
        None \<Rightarrow> None
      | Some (Inr u, h') \<Rightarrow> Some (Inr u, h')
      | Some (Inl TypeError, h') \<Rightarrow> h_pop new_ann ''id'' h'
      | Some (Inl (ValueError msg), h') \<Rightarrow> h_pop new_ann ''id'' h'
      | Some (Inl e, h') \<Rightarrow> Some (Inl e, h'))"

definition h_remap_annotation :: "nat \<Rightarrow> val \<Rightarrow> (int \<rightharpoonup> int) \<Rightarrow> int \<Rightarrow> val comp" where
  "h_remap_annotation fuel ann image_id_map annotation_id_offset =
     hbind (hlift (h_in ''image_id'' ann)) (\<lambda>present.
       if \<not> present then hraise (ValueError AnnotationWithoutImageId)
       else
         hbind (hlift (h_getitem ann ''image_id'')) (\<lambda>v.
         hbind (hlift (\<lambda>h. h_int v)) (\<lambda>old_image_id.
           case image_id_map old_image_id of
             None \<Rightarrow> hraise (ValueError (UnknownImageId old_image_id))
           | Some new_image_id \<Rightarrow>
               hbind (h_deepcopy fuel ann) (\<lambda>new_ann.
               hbind (h_setitem new_ann ''image_id'' (VInt new_image_id)) (\<lambda>_.
               hbind (hlift (h_in ''id'' ann)) (\<lambda>has_id.
               hbind (if has_id then h_offset_annotation_id ann new_ann annotation_id_offset
                      else hreturn ()) (\<lambda>_.
                 hreturn new_ann)))))))"

fun h_remap_annotations_from ::
  "nat \<Rightarrow> val \<Rightarrow> val list \<Rightarrow> (int \<rightharpoonup> int) \<Rightarrow> int \<Rightarrow> val comp" where
  "h_remap_annotations_from fuel updated_annotations [] image_id_map annotation_id_offset =
     hreturn updated_annotations"
| "h_remap_annotations_from fuel updated_annotations (ann # annotations_b) image_id_map
       annotation_id_offset =
     hbind (h_remap_annotation fuel ann image_id_map annotation_id_offset) (\<lambda>new_ann.
     hbind (h_append updated_annotations new_ann) (\<lambda>_.
       h_remap_annotations_from fuel updated_annotations annotations_b image_id_map
         annotation_id_offset))"

definition h_remap_annotations ::
  "nat \<Rightarrow> val \<Rightarrow> (int \<rightharpoonup> int) \<Rightarrow> int \<Rightarrow> val comp" where
  "h_remap_annotations fuel annotations_b image_id_map annotation_id_offset =
     hbind (h_new (OList [])) (\<lambda>updated_annotations.
     hbind (hlift (h_items annotations_b)) (\<lambda>anns.
       h_remap_annotations_from fuel updated_annotations anns image_id_map
         annotation_id_offset))"

fun h_copy_common :: "nat \<Rightarrow> val \<Rightarrow> string list \<Rightarrow> val \<Rightarrow> unit comp" where
  "h_copy_common fuel a [] merged = hreturn ()"
| "h_copy_common fuel a (key # keys) merged =
     hbind (hlift (h_in key a)) (\<lambda>present.
     hbind (if present then
              hbind (hlift (h_getitem a key)) (\<lambda>v.
              hbind (h_deepcopy fuel v) (\<lambda>c.
                h_setitem merged key c))
            else hreturn ()) (\<lambda>_.
       h_copy_common fuel a keys merged))"

fun h_carry_over :: "nat \<Rightarrow> (string \<times> val) list \<Rightarrow> val \<Rightarrow> unit comp" where
  "h_carry_over fuel [] merged = hreturn ()"
| "h_carry_over fuel ((key, v) # items) merged =
     hbind (hlift (h_in key merged)) (\<lambda>present.
     hbind (if present then hreturn ()
            else hbind (h_deepcopy fuel v) (\<lambda>c. h_setitem merged key c)) (\<lambda>_.
       h_carry_over fuel items merged))"

text \<open>
  \<^verbatim>\<open>merge_instances\<close>, with every subscript of the payloads read where the source
  reads it. The warning about differing categories only reads the payloads and writes to the
  error stream; it is left out.
\<close>

definition h_merge_instances :: "nat \<Rightarrow> val \<Rightarrow> val \<Rightarrow> val comp" where
  "h_merge_instances fuel a b =
     hbind (hlift (h_validate_coco_like a ''First JSON'')) (\<lambda>_.
     hbind (hlift (h_validate_coco_like b ''Second JSON'')) (\<lambda>_.
     hbind (hlift (h_getitem a ''images'')) (\<lambda>images_a.
     hbind (hlift (h_get_max_id images_a ''id'')) (\<lambda>max_image_id_a.
     hbind (hlift (h_getitem a ''annotations'')) (\<lambda>annotations_a.
     hbind (hlift (h_get_max_id annotations_a ''id'')) (\<lambda>max_ann_id_a.
     hbind (hlift (h_getitem b ''images'')) (\<lambda>images_b.
     hbind (h_build_image_id_mapping fuel images_b max_image_id_a)
       (\<lambda>(updated_images_b, image_id_map).
     hbind (hlift (h_getitem b ''annotations'')) (\<lambda>annotations_b.
     hbind (h_remap_annotations fuel annotations_b image_id_map max_ann_id_a)
       (\<lambda>updated_annotations_b.
     hbind (h_new (ODict [])) (\<lambda>merged.
     hbind (h_copy_common fuel a [''info'', ''licenses'', ''categories''] merged) (\<lambda>_.
     hbind (hlift (h_getitem a ''images'')) (\<lambda>images_a.
     hbind (h_deepcopy fuel images_a) (\<lambda>images_copy.
     hbind (h_concat images_copy updated_images_b) (\<lambda>images.
     hbind (h_setitem merged ''images'' images) (\<lambda>_.
     hbind (hlift (h_getitem a ''annotations'')) (\<lambda>annotations_a.
     hbind (h_deepcopy fuel annotations_a) (\<lambda>annotations_copy.
     hbind (h_concat annotations_copy updated_annotations_b) (\<lambda>annotations.
     hbind (h_setitem merged ''annotations'' annotations) (\<lambda>_.
     hbind (hlift (h_fields a)) (\<lambda>items_a.
     hbind (h_carry_over fuel items_a merged) (\<lambda>_.
       hreturn merged))))))))))))))))))))))"

subsection \<open>What a call leaves unchanged and what it builds\<close>

text \<open>
  \<open>frame h0 h\<close>: every object of the store \<open>h0\<close> is in \<open>h\<close>, at its address and as it
  was. \<open>closed n h\<close>: the objects at the addresses from \<open>n\<close> on refer only to objects at
  such addresses.
\<close>

definition frame :: "heap \<Rightarrow> heap \<Rightarrow> bool" where
  "frame h0 h = (length h0 \<le> length h \<and> take (length h0) h = h0)"

fun refs_val :: "val \<Rightarrow> addr list" where
  "refs_val (VRef a) = [a]"
| "refs_val v = []"

fun refs_obj :: "obj \<Rightarrow> addr list" where
  "refs_obj (OList xs) = concat (map refs_val xs)"
| "refs_obj (ODict fs) = concat (map (\<lambda>(k, v). refs_val v) fs)"

definition refs_in :: "nat \<Rightarrow> nat \<Rightarrow> addr list \<Rightarrow> bool" where
  "refs_in lo hi rs = list_all (\<lambda>a. lo \<le> a \<and> a < hi) rs"

definition closed :: "nat \<Rightarrow> heap \<Rightarrow> bool" where
  "closed n h = list_all (\<lambda>a. refs_in n (length h) (refs_obj (h ! a))) [n ..< length h]"

text \<open>
  \<open>new_val\<close>: an atom, or the address of an object made since \<open>h0\<close>; \<open>new_ref\<close>: the
  latter. \<open>ok h0 h m Q\<close>: started in \<open>h\<close>, the computation \<open>m\<close> comes to an end, leaves
  every object of \<open>h0\<close> as it was and the new objects closed, removes no object, and a
  value it returns satisfies \<open>Q\<close>.
\<close>

definition inv :: "heap \<Rightarrow> heap \<Rightarrow> bool" where
  "inv h0 h = (frame h0 h \<and> closed (length h0) h)"

definition new_val :: "heap \<Rightarrow> heap \<Rightarrow> val \<Rightarrow> bool" where
  "new_val h0 h v = refs_in (length h0) (length h) (refs_val v)"

fun new_ref :: "heap \<Rightarrow> heap \<Rightarrow> val \<Rightarrow> bool" where
  "new_ref h0 h (VRef p) = (length h0 \<le> p \<and> p < length h)"
| "new_ref h0 h v = False"

definition ok :: "heap \<Rightarrow> heap \<Rightarrow> 'a comp \<Rightarrow> ('a \<Rightarrow> heap \<Rightarrow> bool) \<Rightarrow> bool" where
  "ok h0 h m Q =
     (case m h of
        None \<Rightarrow> False
      | Some (res, h') \<Rightarrow>
          inv h0 h' \<and> length h \<le> length h' \<and> (case res of Inl e \<Rightarrow> True | Inr x \<Rightarrow> Q x h'))"


text \<open>
  The addresses met when the references of the object at an address are followed, down to
  a given depth.
\<close>

fun reach :: "nat \<Rightarrow> heap \<Rightarrow> addr \<Rightarrow> addr list" where
  "reach 0 h p = [p]"
| "reach (Suc n) h p =
     p # (if p < length h then concat (map (reach n h) (refs_obj (h ! p))) else [])"

subsection \<open>Example store\<close>

text \<open>The two example datasets, placed in an empty store one after the other.\<close>

definition example_heap_a :: "val \<times> heap" where
  "example_heap_a = store example_a []"

definition example_heap :: "val \<times> heap" where
  "example_heap = store example_b (snd example_heap_a)"

section \<open>Basic facts\<close>

lemma bind_err_simps [simp]:
  "bind_err (Inl e) f = Inl e"
  "bind_err (Inr x) f = f x"
  by (simp_all add: bind_err_def)

lemma bind_err_eq_Inr:
  "bind_err r f = Inr y \<longleftrightarrow> (\<exists>x. r = Inr x \<and> f x = Inr y)"
  by (cases r) simp_all

lemma bind_err_eq_Inl:
  "bind_err r f = Inl e \<longleftrightarrow> r = Inl e \<or> (\<exists>x. r = Inr x \<and> f x = Inl e)"
  by (cases r) simp_all

lemma map_err_eq_Inr:
  "map_err f xs = Inr ys \<longleftrightarrow> list_all2 (\<lambda>x y. f x = Inr y) xs ys"
proof (induction xs arbitrary: ys)
  case Nil
  then show ?case by auto
next
  case (Cons x xs)
  show ?case
    by (cases ys) (auto simp: bind_err_eq_Inr Cons.IH)
qed

lemma map_err_all_Inr:
  "(\<And>x. x \<in> set xs \<Longrightarrow> f x = Inr (g x)) \<Longrightarrow> map_err f xs = Inr (map g xs)"
  by (induction xs) simp_all

lemma map_err_Inl_ex:
  "map_err f xs = Inl e \<Longrightarrow> \<exists>x \<in> set xs. f x = Inl e"
  by (induction xs) (auto simp: bind_err_eq_Inl)

lemma map_err_fails:
  "x \<in> set xs \<Longrightarrow> f x = Inl e \<Longrightarrow> \<exists>e'. map_err f xs = Inl e'"
proof (induction xs)
  case Nil
  then show ?case by simp
next
  case (Cons a xs)
  show ?case
  proof (cases "f a")
    case (Inl e0)
    then show ?thesis by simp
  next
    case (Inr y)
    show ?thesis
    proof (cases "x = a")
      case True
      with Cons.prems Inr show ?thesis by simp
    next
      case False
      with Cons obtain e' where "map_err f xs = Inl e'" by auto
      with Inr show ?thesis by simp
    qed
  qed
qed

lemma remap_annotations_from_map_err:
  "remap_annotations_from acc anns m off =
     bind_err (map_err (\<lambda>ann. remap_annotation ann m off) anns) (\<lambda>ys. Inr (acc @ ys))"
proof (induction anns arbitrary: acc)
  case Nil
  then show ?case by simp
next
  case (Cons ann anns)
  show ?case
    by (cases "remap_annotation ann m off";
        cases "map_err (\<lambda>ann. remap_annotation ann m off) anns")
       (simp_all add: Cons.IH)
qed

lemma remap_annotations_map_err:
  "remap_annotations anns m off = map_err (\<lambda>ann. remap_annotation ann m off) anns"
  by (cases "map_err (\<lambda>ann. remap_annotation ann m off) anns")
     (simp_all add: remap_annotations_def remap_annotations_from_map_err)


lemma build_image_id_mapping_from_map_err:
  "build_image_id_mapping_from acc m imgs off =
     bind_err (map_err (\<lambda>img. remap_image img off) imgs)
       (\<lambda>rs. Inr (acc @ map fst rs, add_pairs rs m))"
proof (induction imgs arbitrary: acc m)
  case Nil
  then show ?case by (simp add: add_pairs_def)
next
  case (Cons img imgs)
  show ?case
    by (cases "remap_image img off";
        cases "map_err (\<lambda>img. remap_image img off) imgs")
       (simp_all add: Cons.IH add_pairs_def fun_upd_def split: prod.splits)
qed

lemma key_in_fields: "k \<in> fst ` set fs \<longleftrightarrow> map_of fs k \<noteq> None"
  by (simp add: map_of_eq_None_iff)

lemma py_in_JObj: "py_in k (JObj fs) = Inr (map_of fs k \<noteq> None)"
  by (simp add: key_in_fields)

lemma remap_image_JObj:
  "remap_image (JObj fs) off =
     (case map_of fs ''id'' of
        None \<Rightarrow> Inl (ValueError ImageWithoutId)
      | Some v \<Rightarrow>
          (case python_int v of
             Inl e \<Rightarrow> Inl e
           | Inr n \<Rightarrow> Inr (JObj (AList.update ''id'' (JInt (n + off)) fs), n, n + off)))"
  by (simp add: remap_image_def py_in_JObj deepcopy_def Let_def del: py_in.simps
      split: option.splits sum.splits)

lemma remap_image_not_object:
  "\<forall>fs. img \<noteq> JObj fs \<Longrightarrow> \<exists>e. remap_image img off = Inl e"
  by (cases img) (auto simp: remap_image_def bind_err_def split: sum.splits)

lemma remap_annotation_JObj:
  "remap_annotation (JObj fs) m off =
     (case map_of fs ''image_id'' of
        None \<Rightarrow> Inl (ValueError AnnotationWithoutImageId)
      | Some w \<Rightarrow>
          (case python_int w of
             Inl e \<Rightarrow> Inl e
           | Inr k \<Rightarrow>
               (case m k of
                  None \<Rightarrow> Inl (ValueError (UnknownImageId k))
                | Some k' \<Rightarrow>
                    (case map_of fs ''id'' of
                       None \<Rightarrow> Inr (JObj (AList.update ''image_id'' (JInt k') fs))
                     | Some v \<Rightarrow>
                         (case python_int v of
                            Inr n \<Rightarrow> Inr (JObj (AList.update ''id'' (JInt (n + off))
                                        (AList.update ''image_id'' (JInt k') fs)))
                          | Inl TypeError \<Rightarrow>
                              Inr (JObj (AList.delete ''id''
                                     (AList.update ''image_id'' (JInt k') fs)))
                          | Inl (ValueError _) \<Rightarrow>
                              Inr (JObj (AList.delete ''id''
                                     (AList.update ''image_id'' (JInt k') fs)))
                          | Inl e \<Rightarrow> Inl e)))))"
  by (simp add: remap_annotation_def offset_annotation_id_def py_in_JObj deepcopy_def
      update_conv' del: py_in.simps
      split: option.splits sum.splits error.splits)

lemma remap_annotation_not_object:
  "\<forall>fs. ann \<noteq> JObj fs \<Longrightarrow> \<exists>e. remap_annotation ann m off = Inl e"
  by (cases ann) (auto simp: remap_annotation_def bind_err_def split: sum.splits)

lemma map_of_copy_common:
  "map_of (copy_common a keys merged) k =
     (if k \<in> set keys \<and> map_of a k \<noteq> None then map_of a k else map_of merged k)"
  by (induction keys arbitrary: merged)
     (auto simp: update_conv' deepcopy_def split: option.splits)

lemma map_of_carry_over:
  "map_of (carry_over items merged) k =
     (case map_of merged k of Some v \<Rightarrow> Some v | None \<Rightarrow> map_of items k)"
proof (induction items arbitrary: merged)
  case Nil
  then show ?case by (simp split: option.splits)
next
  case (Cons p items)
  obtain key v where p: "p = (key, v)" by (cases p)
  show ?case
    unfolding p
    by (auto simp: Cons.IH update_conv' deepcopy_def key_in_fields split: option.splits)
qed

lemma validate_coco_like_Inr:
  "validate_coco_like d label = Inr () \<longleftrightarrow>
     (\<exists>fs imgs anns. d = JObj fs \<and> map_of fs ''images'' = Some (JList imgs) \<and>
        map_of fs ''annotations'' = Some (JList anns))"
  by (cases d) (auto split: option.splits json.splits)

lemma list_of_JObj:
  "map_of fs key = Some (JList xs) \<Longrightarrow> list_of (JObj fs) key = Inr xs"
  by (simp add: list_of_def)


lemma map_deepcopy [simp]: "map deepcopy xs = xs"
  by (induction xs) (simp_all add: deepcopy_def)

lemma merge_instances_unfold:
  assumes "map_of fa ''images'' = Some (JList ia)" "map_of fa ''annotations'' = Some (JList aa)"
    and "map_of fb ''images'' = Some (JList ib)" "map_of fb ''annotations'' = Some (JList ab)"
  shows "merge_instances (JObj fa) (JObj fb) =
     bind_err (get_max_id ia ''id'') (\<lambda>oi.
     bind_err (get_max_id aa ''id'') (\<lambda>oa.
     bind_err (build_image_id_mapping ib oi) (\<lambda>(ub, m).
     bind_err (remap_annotations ab m oa) (\<lambda>ua.
       Inr (JObj (assemble fa (ia @ ub) (aa @ ua)))))))"
  using assms
  by (simp add: merge_instances_def list_of_JObj deepcopy_def assemble_def Let_def
      del: copy_common.simps)

section \<open>The offset: \<^verbatim>\<open>get_max_id\<close>\<close>



lemma int_field_SomeD:
  "int_field key item = Some n \<Longrightarrow> py_getitem item key = Inr (JInt n)"
  by (cases item) (auto split: option.splits json.splits)

lemma get_max_id_from_int_fields:
  "map (int_field key) items = map Some ids \<Longrightarrow>
   get_max_id_from m items key = Inr (Max (insert m (set ids)))"
proof (induction items arbitrary: m ids)
  case Nil
  then show ?case by simp
next
  case (Cons item items)
  then obtain n ns where ids: "ids = n # ns" and n: "int_field key item = Some n"
    and ns: "map (int_field key) items = map Some ns"
    by (cases ids) auto
  have step: "get_max_id_from m (item # items) key =
      get_max_id_from (if n > m then n else m) items key"
    using int_field_SomeD [OF n] by simp
  have "Max (insert (if n > m then n else m) (set ns)) = Max (insert m (set (n # ns)))"
  proof -
    have "Max (insert m (insert n (set ns))) = max m (Max (insert n (set ns)))"
      by (rule Max_insert) auto
    also have "Max (insert n (set ns)) = (if set ns = {} then n else max n (Max (set ns)))"
      by (auto)
    finally show ?thesis by (auto simp: max_def)
  qed
  then show ?case using Cons.IH [OF ns] step ids by simp
qed

text \<open>
  Claim C3. On a list of records whose \<open>key\<close> fields are the integers \<open>ids\<close>, none of
  them negative, \<^verbatim>\<open>get_max_id\<close> returns the greatest of them, and 0 when there is none.
\<close>

theorem get_max_id_is_maximum:
  assumes "map (int_field key) items = map Some ids" and "\<forall>n \<in> set ids. 0 \<le> n"
  shows "get_max_id items key = Inr (if ids = [] then 0 else Max (set ids))"
proof (cases "ids = []")
  case True
  then show ?thesis using assms by (simp add: get_max_id_def)
next
  case False
  then have "Max (insert 0 (set ids)) = max 0 (Max (set ids))"
    by (simp)
  moreover have "0 \<le> Max (set ids)"
    using False assms(2) by (meson List.finite_set Max_in set_empty)
  ultimately show ?thesis
    using get_max_id_from_int_fields [OF assms(1), of 0] False
    by (simp add: get_max_id_def max_def)
qed


theorem get_max_id_is_maximum_witness:
  "get_max_id [JObj [(''id'', JInt 5)], JObj [(''id'', JInt 2)], JObj [(''id'', JInt 9)]] ''id''
     = Inr 9
   \<and> get_max_id [] ''id'' = Inr 0"
  using get_max_id_is_maximum [of "''id''"
      "[JObj [(''id'', JInt 5)], JObj [(''id'', JInt 2)], JObj [(''id'', JInt 9)]]" "[5, 2, 9]"]
    get_max_id_is_maximum [of "''id''" "[]" "[]"]
  by simp

lemma add_pairs_map:
  "add_pairs (map (\<lambda>x. (g x, h x, h x + off)) xs) m k =
     (if k \<in> h ` set xs then Some (k + off) else m k)"
  by (induction xs arbitrary: m) (auto simp: add_pairs_def)


lemma remap_image_old_id:
  "old_id img = Some n \<Longrightarrow> remap_image img off = Inr (set_id (n + off) img, n, n + off)"
  by (cases img) (auto simp: remap_image_JObj split: option.splits sum.splits)


lemma build_image_id_mapping_map_err:
  "build_image_id_mapping imgs off =
     bind_err (map_err (\<lambda>img. remap_image img off) imgs)
       (\<lambda>rs. Inr (map fst rs, add_pairs rs Map.empty))"
  by (simp add: build_image_id_mapping_def build_image_id_mapping_from_map_err)


lemma build_image_id_mapping_total:
  assumes "list_all image_record imgs" and "\<forall>img \<in> set imgs. \<not> lacks_id img"
  shows "build_image_id_mapping imgs off =
     Inr (map (\<lambda>img. set_id (the (old_id img) + off) img) imgs,
          \<lambda>k. if k \<in> (\<lambda>img. the (old_id img)) ` set imgs then Some (k + off) else None)"
proof -
  have "map_err (\<lambda>img. remap_image img off) imgs =
      Inr (map (\<lambda>img. (set_id (the (old_id img) + off) img, the (old_id img),
                         the (old_id img) + off)) imgs)"
  proof (rule map_err_all_Inr)
    fix x assume "x \<in> set imgs"
    then have "old_id x \<noteq> None"
      using assms by (auto simp: list_all_iff image_record_def)
    then show "remap_image x off =
        Inr (set_id (the (old_id x) + off) x, the (old_id x), the (old_id x) + off)"
      using remap_image_old_id by auto
  qed
  then show ?thesis
    by (simp add: build_image_id_mapping_map_err add_pairs_map comp_def fun_eq_iff)
qed


lemma get_max_id_from_total:
  assumes "\<forall>item \<in> set items. \<forall>v. py_getitem item key = Inr v \<longrightarrow> python_int v \<noteq> Inl OverflowError"
  shows "\<exists>n. get_max_id_from m items key = Inr n \<and> m \<le> n"
  using assms
proof (induction items arbitrary: m)
  case Nil
  then show ?case by simp
next
  case (Cons item items)
  have rest: "\<exists>n. get_max_id_from m' items key = Inr n \<and> m' \<le> n" for m'
    using Cons.IH Cons.prems by simp
  show ?case
  proof (cases "py_getitem item key")
    case (Inl e)
    then have "e \<noteq> OverflowError" by (cases item) (auto split: option.splits)
    with Inl rest [of m] show ?thesis by (cases e) simp_all
  next
    case (Inr v)
    then have no: "python_int v \<noteq> Inl OverflowError" using Cons.prems by simp
    show ?thesis
    proof (cases "python_int v")
      case (Inl e)
      with no Inr rest [of m] show ?thesis by (cases e) simp_all
    next
      case (Inr n)
      with \<open>py_getitem item key = Inr v\<close> rest [of "if n > m then n else m"]
      show ?thesis by (auto split: if_splits)
    qed
  qed
qed

lemma typed_image_getitem:
  "typed_image img \<Longrightarrow> py_getitem img key = Inr v \<Longrightarrow> key = ''id'' \<Longrightarrow>
     python_int v \<noteq> Inl OverflowError"
  by (cases img) (auto simp: typed_image_def split: option.splits json.splits)

lemma typed_annotation_getitem:
  "typed_annotation ann \<Longrightarrow> py_getitem ann ''id'' = Inr v \<Longrightarrow>
     python_int v \<noteq> Inl OverflowError"
  by (cases ann) (auto split: option.splits json.splits)

lemma valid_dataset_offsets:
  assumes "valid_dataset a"
  shows "\<exists>oi oa. get_max_id (dataset_images a) ''id'' = Inr oi \<and>
           get_max_id (dataset_annotations a) ''id'' = Inr oa \<and> 0 \<le> oi \<and> 0 \<le> oa"
proof -
  have "\<exists>n. get_max_id_from 0 (dataset_images a) ''id'' = Inr n \<and> 0 \<le> n"
    by (rule get_max_id_from_total)
       (use assms typed_image_getitem in \<open>auto simp: valid_dataset_def list_all_iff\<close>)
  moreover have "\<exists>n. get_max_id_from 0 (dataset_annotations a) ''id'' = Inr n \<and> 0 \<le> n"
    by (rule get_max_id_from_total)
       (use assms typed_annotation_getitem in \<open>auto simp: valid_dataset_def list_all_iff\<close>)
  ultimately show ?thesis by (auto simp: get_max_id_def)
qed

lemma validated_dataset:
  assumes "validate_coco_like d label = Inr ()"
  obtains fs where "d = JObj fs"
    and "map_of fs ''images'' = Some (JList (dataset_images d))"
    and "map_of fs ''annotations'' = Some (JList (dataset_annotations d))"
proof -
  obtain fs imgs anns where "d = JObj fs" "map_of fs ''images'' = Some (JList imgs)"
    "map_of fs ''annotations'' = Some (JList anns)"
    using assms validate_coco_like_Inr by blast
  then show ?thesis
    using that by (simp add: dataset_images_def dataset_annotations_def list_of_def)
qed




lemma map_of_assemble:
  "map_of (assemble fa imgs anns) k =
     (if k = ''annotations'' then Some (JList anns)
      else if k = ''images'' then Some (JList imgs)
      else map_of fa k)"
  by (simp add: assemble_def map_of_carry_over map_of_copy_common update_conv'
      del: copy_common.simps split: option.splits)

lemma distinct_copy_common:
  "distinct (map fst merged) \<Longrightarrow> distinct (map fst (copy_common a keys merged))"
  by (induction keys arbitrary: merged) (simp_all add: distinct_update split: option.splits)

lemma distinct_carry_over:
  "distinct (map fst merged) \<Longrightarrow> distinct (map fst (carry_over items merged))"
proof (induction items arbitrary: merged)
  case Nil
  then show ?case by simp
next
  case (Cons p items)
  obtain key v where p: "p = (key, v)" by (cases p)
  show ?case
    unfolding p using Cons.prems
    by (auto intro!: Cons.IH simp: distinct_update)
qed

lemma distinct_assemble: "distinct (map fst (assemble fa imgs anns))"
  unfolding assemble_def
  by (intro distinct_carry_over distinct_update distinct_copy_common) simp

lemma typed_image_old_id:
  assumes "typed_image img"
  obtains n where "int_field ''id'' img = Some n" and "old_id img = Some n" and "0 \<le> n"
    and "\<not> lacks_id img" and "image_record img"
    and "set_id (n + off) img = shift_image off img"
  using assms
  by (cases img)
     (auto simp: typed_image_def image_record_def shift_image_def
       split: option.splits json.splits)

lemma ids_of_typed_images:
  "list_all typed_image imgs \<Longrightarrow> ids_of ''id'' imgs = map (\<lambda>img. the (old_id img)) imgs"
proof (induction imgs)
  case Nil
  then show ?case by (simp add: ids_of_def)
next
  case (Cons img imgs)
  from Cons.prems have "typed_image img" by simp
  then obtain n where "int_field ''id'' img = Some n" "old_id img = Some n"
    by (rule typed_image_old_id)
  with Cons show ?case by (simp add: ids_of_def)
qed

lemma build_image_id_mapping_typed:
  assumes "list_all typed_image imgs"
  shows "build_image_id_mapping imgs off =
     Inr (map (shift_image off) imgs,
          \<lambda>k. if k \<in> set (ids_of ''id'' imgs) then Some (k + off) else None)"
proof -
  have rec: "list_all image_record imgs" and has: "\<forall>img \<in> set imgs. \<not> lacks_id img"
    using assms typed_image_old_id by (auto simp: list_all_iff)
  have "map (\<lambda>img. set_id (the (old_id img) + off) img) imgs = map (shift_image off) imgs"
  proof (rule map_cong [OF refl])
    fix img assume "img \<in> set imgs"
    then have "typed_image img" using assms by (simp add: list_all_iff)
    then obtain n where "old_id img = Some n" "set_id (n + off) img = shift_image off img"
      by (rule typed_image_old_id)
    then show "set_id (the (old_id img) + off) img = shift_image off img" by simp
  qed
  then show ?thesis
    using build_image_id_mapping_total [OF rec has, of off]
    by (simp add: ids_of_typed_images [OF assms])
qed

lemma remap_annotation_typed:
  assumes "typed_annotation ann" and "refers_to ids ann"
  shows "remap_annotation ann (\<lambda>k. if k \<in> set ids then Some (k + oi) else None) oa =
     Inr (shift_annotation oi oa ann)"
  using assms
  by (cases ann)
     (auto simp: remap_annotation_JObj refers_to_def shift_annotation_def update_conv'
       split: option.splits json.splits)

lemma remap_annotations_typed:
  assumes "list_all typed_annotation anns" and "list_all (refers_to ids) anns"
  shows "remap_annotations anns (\<lambda>k. if k \<in> set ids then Some (k + oi) else None) oa =
     Inr (map (shift_annotation oi oa) anns)"
  unfolding remap_annotations_map_err
  by (rule map_err_all_Inr)
     (use assms remap_annotation_typed in \<open>auto simp: list_all_iff\<close>)

lemma merge_instances_valid:
  assumes a: "valid_dataset a" and b: "valid_dataset b"
  obtains fa oi oa where "a = JObj fa"
    and "get_max_id (dataset_images a) ''id'' = Inr oi"
    and "get_max_id (dataset_annotations a) ''id'' = Inr oa"
    and "merge_instances a b =
           Inr (JObj (assemble fa
             (dataset_images a @ map (shift_image oi) (dataset_images b))
             (dataset_annotations a @ map (shift_annotation oi oa) (dataset_annotations b))))"
proof -
  from a have "validate_coco_like a ''dataset'' = Inr ()" by (simp add: valid_dataset_def)
  then obtain fa where fa: "a = JObj fa"
    "map_of fa ''images'' = Some (JList (dataset_images a))"
    "map_of fa ''annotations'' = Some (JList (dataset_annotations a))"
    by (rule validated_dataset)
  from b have "validate_coco_like b ''dataset'' = Inr ()" by (simp add: valid_dataset_def)
  then obtain fb where fb: "b = JObj fb"
    "map_of fb ''images'' = Some (JList (dataset_images b))"
    "map_of fb ''annotations'' = Some (JList (dataset_annotations b))"
    by (rule validated_dataset)
  obtain oi oa where off: "get_max_id (dataset_images a) ''id'' = Inr oi"
    "get_max_id (dataset_annotations a) ''id'' = Inr oa"
    using valid_dataset_offsets [OF a] by blast
  have imgs: "list_all typed_image (dataset_images b)"
    and anns: "list_all typed_annotation (dataset_annotations b)"
    and refs: "list_all (refers_to (ids_of ''id'' (dataset_images b))) (dataset_annotations b)"
    using b by (simp_all add: valid_dataset_def)
  have "merge_instances (JObj fa) (JObj fb) =
           Inr (JObj (assemble fa
             (dataset_images a @ map (shift_image oi) (dataset_images b))
             (dataset_annotations a @ map (shift_annotation oi oa) (dataset_annotations b))))"
    by (simp add: merge_instances_unfold [OF fa(2,3) fb(2,3)] off
        build_image_id_mapping_typed [OF imgs] remap_annotations_typed [OF anns refs])
  then have "merge_instances a b =
           Inr (JObj (assemble fa
             (dataset_images a @ map (shift_image oi) (dataset_images b))
             (dataset_annotations a @ map (shift_annotation oi oa) (dataset_annotations b))))"
    using fa(1) fb(1) by simp
  with fa(1) off show ?thesis using that by blast
qed

text \<open>
  Claim C2. For valid datasets the merge succeeds; its \<^verbatim>\<open>images\<close> are the images of the
  first dataset followed by those of the second, each in its place with its id moved by the
  image offset, and its \<^verbatim>\<open>annotations\<close> are the annotations of the first followed by
  those of the second, each in its place with its reference and its own id moved.
\<close>

theorem merge_instances_order:
  assumes "valid_dataset a" and "valid_dataset b"
  shows "\<exists>m oi oa. merge_instances a b = Inr (JObj m)
      \<and> get_max_id (dataset_images a) ''id'' = Inr oi
      \<and> get_max_id (dataset_annotations a) ''id'' = Inr oa
      \<and> map_of m ''images'' =
           Some (JList (dataset_images a @ map (shift_image oi) (dataset_images b)))
      \<and> map_of m ''annotations'' =
           Some (JList (dataset_annotations a
                  @ map (shift_annotation oi oa) (dataset_annotations b)))"
proof -
  obtain fa oi oa where "get_max_id (dataset_images a) ''id'' = Inr oi"
    and "get_max_id (dataset_annotations a) ''id'' = Inr oa"
    and "merge_instances a b =
           Inr (JObj (assemble fa
             (dataset_images a @ map (shift_image oi) (dataset_images b))
             (dataset_annotations a @ map (shift_annotation oi oa) (dataset_annotations b))))"
    using merge_instances_valid [OF assms] by blast
  then show ?thesis
    by (intro exI conjI) (assumption, assumption, assumption, simp_all add: map_of_assemble)
qed

lemma example_a_valid: "valid_dataset example_a"
  by (simp add: valid_dataset_def example_a_def dataset_images_def dataset_annotations_def
      list_of_def typed_image_def refers_to_def ids_of_def)

lemma example_b_valid: "valid_dataset example_b"
  by (simp add: valid_dataset_def example_b_def dataset_images_def dataset_annotations_def
      list_of_def typed_image_def refers_to_def ids_of_def)

lemma example_zero_valid: "valid_dataset example_zero"
  by (simp add: valid_dataset_def example_zero_def dataset_images_def dataset_annotations_def
      list_of_def typed_image_def refers_to_def ids_of_def)

lemma example_a_lists:
  "dataset_images example_a =
     [JObj [(''id'', JInt 1), (''file_name'', JStr ''a1.png'')],
      JObj [(''id'', JInt 2), (''file_name'', JStr ''a2.png'')]]"
  "dataset_annotations example_a =
     [JObj [(''id'', JInt 1), (''image_id'', JInt 2), (''category_id'', JInt 1)]]"
  by (simp_all add: example_a_def dataset_images_def dataset_annotations_def list_of_def)

lemma example_b_lists:
  "dataset_images example_b = [JObj [(''id'', JInt 1), (''file_name'', JStr ''b1.png'')]]"
  "dataset_annotations example_b =
     [JObj [(''id'', JInt 1), (''image_id'', JInt 1)],
      JObj [(''image_id'', JInt 1), (''category_id'', JInt 1)]]"
  by (simp_all add: example_b_def dataset_images_def dataset_annotations_def list_of_def)

lemma example_a_offsets:
  "get_max_id (dataset_images example_a) ''id'' = Inr 2"
  "get_max_id (dataset_annotations example_a) ''id'' = Inr 1"
  by (simp_all add: example_a_lists get_max_id_def)

theorem merge_instances_order_witness:
  "\<exists>m. merge_instances example_a example_b = Inr (JObj m)
     \<and> map_of m ''images'' = Some (JList
          [JObj [(''id'', JInt 1), (''file_name'', JStr ''a1.png'')],
           JObj [(''id'', JInt 2), (''file_name'', JStr ''a2.png'')],
           JObj [(''id'', JInt 3), (''file_name'', JStr ''b1.png'')]])
     \<and> map_of m ''annotations'' = Some (JList
          [JObj [(''id'', JInt 1), (''image_id'', JInt 2), (''category_id'', JInt 1)],
           JObj [(''id'', JInt 2), (''image_id'', JInt 3)],
           JObj [(''image_id'', JInt 3), (''category_id'', JInt 1)]])"
proof -
  obtain m oi oa where m: "merge_instances example_a example_b = Inr (JObj m)"
    and oi: "get_max_id (dataset_images example_a) ''id'' = Inr oi"
    and oa: "get_max_id (dataset_annotations example_a) ''id'' = Inr oa"
    and imgs: "map_of m ''images'' =
           Some (JList (dataset_images example_a
                  @ map (shift_image oi) (dataset_images example_b)))"
    and anns: "map_of m ''annotations'' =
           Some (JList (dataset_annotations example_a
                  @ map (shift_annotation oi oa) (dataset_annotations example_b)))"
    using merge_instances_order [OF example_a_valid example_b_valid] by blast
  from oi oa have "oi = 2" and "oa = 1" by (simp_all add: example_a_offsets)
  with imgs anns have "map_of m ''images'' = Some (JList
          [JObj [(''id'', JInt 1), (''file_name'', JStr ''a1.png'')],
           JObj [(''id'', JInt 2), (''file_name'', JStr ''a2.png'')],
           JObj [(''id'', JInt 3), (''file_name'', JStr ''b1.png'')]])"
    and "map_of m ''annotations'' = Some (JList
          [JObj [(''id'', JInt 1), (''image_id'', JInt 2), (''category_id'', JInt 1)],
           JObj [(''id'', JInt 2), (''image_id'', JInt 3)],
           JObj [(''image_id'', JInt 3), (''category_id'', JInt 1)]])"
    by (simp_all add: example_a_lists example_b_lists shift_image_def shift_annotation_def)
  with m show ?thesis by blast
qed

text \<open>
  Claim C9. Merging a valid dataset with a second one that has no image and no annotation
  succeeds and returns a dictionary with the keys of the first and, under every key, the
  value the first has there; in particular its images and annotations are those of the
  first.
\<close>

theorem merge_instances_empty_second:
  assumes "valid_dataset a" and "validate_coco_like b ''Second JSON'' = Inr ()"
    and "dataset_images b = []" and "dataset_annotations b = []"
  shows "\<exists>fa m. a = JObj fa \<and> merge_instances a b = Inr (JObj m)
      \<and> map_of m = map_of fa
      \<and> distinct (map fst m)
      \<and> map_of m ''images'' = Some (JList (dataset_images a))
      \<and> map_of m ''annotations'' = Some (JList (dataset_annotations a))"
proof -
  have "validate_coco_like b ''dataset'' = Inr ()"
    using assms(2) by (simp add: validate_coco_like_Inr)
  then have b: "valid_dataset b"
    using assms(3,4) by (simp add: valid_dataset_def ids_of_def)
  obtain fa oi oa where fa: "a = JObj fa"
    and m: "merge_instances a b =
           Inr (JObj (assemble fa
             (dataset_images a @ map (shift_image oi) (dataset_images b))
             (dataset_annotations a @ map (shift_annotation oi oa) (dataset_annotations b))))"
    using merge_instances_valid [OF assms(1) b] by blast
  let ?m = "assemble fa (dataset_images a) (dataset_annotations a)"
  from assms(1) have "validate_coco_like a ''dataset'' = Inr ()"
    by (simp add: valid_dataset_def)
  then obtain fa' where "a = JObj fa'"
    "map_of fa' ''images'' = Some (JList (dataset_images a))"
    "map_of fa' ''annotations'' = Some (JList (dataset_annotations a))"
    by (rule validated_dataset)
  with fa have lists: "map_of fa ''images'' = Some (JList (dataset_images a))"
    "map_of fa ''annotations'' = Some (JList (dataset_annotations a))"
    by simp_all
  have "map_of ?m = map_of fa"
    by (rule ext) (simp add: map_of_assemble lists)
  moreover have "merge_instances a b = Inr (JObj ?m)"
    using m assms(3,4) by simp
  ultimately show ?thesis
    using fa lists distinct_assemble [of fa "dataset_images a" "dataset_annotations a"]
    by (intro exI [of _ fa] exI [of _ ?m]) simp
qed

theorem merge_instances_empty_second_witness:
  "\<exists>m. merge_instances example_a example_empty = Inr (JObj m)
     \<and> map_of m ''images'' = Some (JList (dataset_images example_a))
     \<and> map_of m ''annotations'' = Some (JList (dataset_annotations example_a))
     \<and> map_of m ''categories'' =
         Some (JList [JObj [(''id'', JInt 1), (''name'', JStr ''fiber'')]])"
proof -
  have "validate_coco_like example_empty ''Second JSON'' = Inr ()"
    and "dataset_images example_empty = []" and "dataset_annotations example_empty = []"
    by (simp_all add: example_empty_def dataset_images_def dataset_annotations_def list_of_def)
  from merge_instances_empty_second [OF example_a_valid this]
  obtain fa m where fa: "example_a = JObj fa"
    and m: "merge_instances example_a example_empty = Inr (JObj m)"
    and same: "map_of m = map_of fa"
    and lists: "map_of m ''images'' = Some (JList (dataset_images example_a))"
      "map_of m ''annotations'' = Some (JList (dataset_annotations example_a))"
    by blast
  from fa have "map_of fa ''categories'' =
      Some (JList [JObj [(''id'', JInt 1), (''name'', JStr ''fiber'')]])"
    by (auto simp: example_a_def)
  with same m lists show ?thesis by auto
qed

text \<open>
  Claim C1, at two datasets that satisfy the data model: the first has the image ids 1 and
  2, the only image of the second has the id 0. The offset is 2, so that image keeps no id
  of its own but takes the id 2 of an image of the first dataset; the annotation ids
  collide in the same way.
\<close>

theorem merge_instances_id_zero_collides:
  "valid_dataset example_a \<and> valid_dataset example_zero \<and>
   merge_instances example_a example_zero = Inr (JObj
     [(''categories'', JList [JObj [(''id'', JInt 1), (''name'', JStr ''fiber'')]]),
      (''images'', JList [JObj [(''id'', JInt 1), (''file_name'', JStr ''a1.png'')],
                          JObj [(''id'', JInt 2), (''file_name'', JStr ''a2.png'')],
                          JObj [(''id'', JInt 2), (''file_name'', JStr ''z.png'')]]),
      (''annotations'', JList [JObj [(''id'', JInt 1), (''image_id'', JInt 2),
                                     (''category_id'', JInt 1)],
                               JObj [(''id'', JInt 1), (''image_id'', JInt 2)]])])"
proof -
  have "merge_instances example_a example_zero = Inr (JObj
     [(''categories'', JList [JObj [(''id'', JInt 1), (''name'', JStr ''fiber'')]]),
      (''images'', JList [JObj [(''id'', JInt 1), (''file_name'', JStr ''a1.png'')],
                          JObj [(''id'', JInt 2), (''file_name'', JStr ''a2.png'')],
                          JObj [(''id'', JInt 2), (''file_name'', JStr ''z.png'')]]),
      (''annotations'', JList [JObj [(''id'', JInt 1), (''image_id'', JInt 2),
                                     (''category_id'', JInt 1)],
                               JObj [(''id'', JInt 1), (''image_id'', JInt 2)]])])"
    by (simp add: merge_instances_def example_a_def example_zero_def list_of_def
        get_max_id_def build_image_id_mapping_def remap_image_def remap_annotations_def
        remap_annotation_def offset_annotation_id_def deepcopy_def)
  then show ?thesis
    using example_a_valid example_zero_valid by simp
qed

lemma map_err_Inr_each:
  "map_err f xs = Inr ys \<Longrightarrow> x \<in> set xs \<Longrightarrow> \<exists>y. f x = Inr y"
proof (induction xs arbitrary: ys)
  case Nil
  then show ?case by simp
next
  case (Cons a xs)
  from Cons.prems(1) obtain y ys' where "f a = Inr y" and "map_err f xs = Inr ys'"
    by (auto simp: bind_err_eq_Inr)
  with Cons.IH Cons.prems(2) show ?case by auto
qed

lemma old_id_SomeD:
  "old_id img = Some n \<Longrightarrow> \<not> lacks_id img \<and> image_record img"
  by (cases img) (auto simp: image_record_def split: option.splits)

lemma remap_image_Inr:
  assumes "remap_image img off = Inr r"
  obtains n where "old_id img = Some n" and "r = (set_id (n + off) img, n, n + off)"
proof (cases img)
  case (JObj fs)
  with assms show ?thesis
    using that by (auto simp: remap_image_JObj split: option.splits sum.splits)
qed (use assms remap_image_not_object [of img off] in auto)

lemma build_image_id_mapping_Inr:
  assumes "build_image_id_mapping imgs off = Inr (out, m)"
  shows "m = (\<lambda>k. if k \<in> set (List.map_filter old_id imgs) then Some (k + off) else None)"
proof -
  obtain rs where rs: "map_err (\<lambda>img. remap_image img off) imgs = Inr rs"
    using assms by (auto simp: build_image_id_mapping_map_err bind_err_eq_Inr)
  have ok: "old_id img \<noteq> None" if "img \<in> set imgs" for img
  proof -
    from map_err_Inr_each [OF rs that] obtain r where "remap_image img off = Inr r" ..
    then show ?thesis by (rule remap_image_Inr) simp
  qed
  then have rec: "list_all image_record imgs" and has: "\<forall>img \<in> set imgs. \<not> lacks_id img"
    using old_id_SomeD by (fastforce simp: list_all_iff)+
  have keys: "set (List.map_filter old_id imgs) = (\<lambda>img. the (old_id img)) ` set imgs"
    using ok by (force simp: List.map_filter_def image_iff)
  from build_image_id_mapping_total [OF rec has, of off] assms
  show ?thesis by (simp add: keys)
qed

lemma python_int_Inl:
  "python_int v = Inl e \<Longrightarrow>
     e = TypeError \<or> e = OverflowError \<or> (\<exists>msg. e = ValueError msg)"
  by (cases v rule: python_int.cases) (auto split: option.splits)

lemma dangling_fails:
  assumes "dangling keys ann"
  shows "\<exists>e. remap_annotation ann (\<lambda>k. if k \<in> set keys then Some (k + oi) else None) oa = Inl e"
  using assms
  by (cases ann) (auto simp: remap_annotation_JObj split: option.splits sum.splits)

lemma annotation_record_Inl:
  assumes "annotation_record ann" and "remap_annotation ann m oa = Inl e"
  shows "e = ValueError AnnotationWithoutImageId \<or> (\<exists>k. e = ValueError (UnknownImageId k))"
  using assms
  by (cases ann)
     (auto simp: remap_annotation_JObj dest: python_int_Inl
       split: option.splits sum.splits error.splits)

lemma merge_instances_InrD:
  assumes "merge_instances a b = Inr r"
  obtains fa oi oa ub m ua where "a = JObj fa"
    and "get_max_id (dataset_images a) ''id'' = Inr oi"
    and "get_max_id (dataset_annotations a) ''id'' = Inr oa"
    and "build_image_id_mapping (dataset_images b) oi = Inr (ub, m)"
    and "remap_annotations (dataset_annotations b) m oa = Inr ua"
    and "r = JObj (assemble fa (dataset_images a @ ub) (dataset_annotations a @ ua))"
proof -
  from assms have va: "validate_coco_like a ''First JSON'' = Inr ()"
    by (cases "validate_coco_like a ''First JSON''") (simp_all add: merge_instances_def)
  with assms have vb: "validate_coco_like b ''Second JSON'' = Inr ()"
    by (cases "validate_coco_like b ''Second JSON''") (simp_all add: merge_instances_def)
  from va obtain fa where fa: "a = JObj fa"
    "map_of fa ''images'' = Some (JList (dataset_images a))"
    "map_of fa ''annotations'' = Some (JList (dataset_annotations a))"
    by (rule validated_dataset)
  from vb obtain fb where fb: "b = JObj fb"
    "map_of fb ''images'' = Some (JList (dataset_images b))"
    "map_of fb ''annotations'' = Some (JList (dataset_annotations b))"
    by (rule validated_dataset)
  from assms have "merge_instances (JObj fa) (JObj fb) = Inr r"
    using fa(1) fb(1) by simp
  then show ?thesis
    unfolding merge_instances_unfold [OF fa(2,3) fb(2,3)]
    using that [OF fa(1)] by (auto simp: bind_err_eq_Inr)
qed

text \<open>
  Claim C5. When an annotation of the second dataset has no \<^verbatim>\<open>image_id\<close>, or one that is
  no key of the mapping built from the images of the second dataset, the merge returns no
  dictionary. When moreover the first dataset is valid and the records of the second are
  otherwise well formed, the exception is the \<^verbatim>\<open>ValueError\<close> for a missing
  \<^verbatim>\<open>image_id\<close> or the one for an unknown \<^verbatim>\<open>image_id\<close>.
\<close>

theorem merge_instances_dangling_reference:
  assumes "ann \<in> set (dataset_annotations b)"
    and "dangling (List.map_filter old_id (dataset_images b)) ann"
  shows "(\<exists>e. merge_instances a b = Inl e)
    \<and> (valid_dataset a \<and> validate_coco_like b ''Second JSON'' = Inr ()
         \<and> list_all typed_image (dataset_images b)
         \<and> list_all annotation_record (dataset_annotations b)
        \<longrightarrow> merge_instances a b = Inl (ValueError AnnotationWithoutImageId)
            \<or> (\<exists>k. merge_instances a b = Inl (ValueError (UnknownImageId k))))"
proof (intro conjI impI)
  show "\<exists>e. merge_instances a b = Inl e"
  proof (cases "merge_instances a b")
    case (Inl e)
    then show ?thesis by blast
  next
    case (Inr r)
    then obtain oi oa ub m ua
      where build: "build_image_id_mapping (dataset_images b) oi = Inr (ub, m)"
        and remap: "remap_annotations (dataset_annotations b) m oa = Inr ua"
      by (rule merge_instances_InrD)
    from build_image_id_mapping_Inr [OF build]
    have m: "m = (\<lambda>k. if k \<in> set (List.map_filter old_id (dataset_images b))
                       then Some (k + oi) else None)" .
    from remap assms(1) have "\<exists>y. remap_annotation ann m oa = Inr y"
      unfolding remap_annotations_map_err by (rule map_err_Inr_each)
    with dangling_fails [OF assms(2), of oi oa] m show ?thesis by auto
  qed
next
  assume h: "valid_dataset a \<and> validate_coco_like b ''Second JSON'' = Inr ()
         \<and> list_all typed_image (dataset_images b)
         \<and> list_all annotation_record (dataset_annotations b)"
  then have a: "valid_dataset a" and vb: "validate_coco_like b ''Second JSON'' = Inr ()"
    and imgs: "list_all typed_image (dataset_images b)"
    and recs: "list_all annotation_record (dataset_annotations b)"
    by simp_all
  from a have "validate_coco_like a ''dataset'' = Inr ()" by (simp add: valid_dataset_def)
  then obtain fa where fa: "a = JObj fa"
    "map_of fa ''images'' = Some (JList (dataset_images a))"
    "map_of fa ''annotations'' = Some (JList (dataset_annotations a))"
    by (rule validated_dataset)
  from vb obtain fb where fb: "b = JObj fb"
    "map_of fb ''images'' = Some (JList (dataset_images b))"
    "map_of fb ''annotations'' = Some (JList (dataset_annotations b))"
    by (rule validated_dataset)
  obtain oi oa where off: "get_max_id (dataset_images a) ''id'' = Inr oi"
    "get_max_id (dataset_annotations a) ''id'' = Inr oa"
    using valid_dataset_offsets [OF a] by blast
  let ?m = "\<lambda>k. if k \<in> set (ids_of ''id'' (dataset_images b)) then Some (k + oi) else None"
  have build: "build_image_id_mapping (dataset_images b) oi =
      Inr (map (shift_image oi) (dataset_images b), ?m)"
    by (rule build_image_id_mapping_typed [OF imgs])
  from build_image_id_mapping_Inr [OF build]
  have m: "?m = (\<lambda>k. if k \<in> set (List.map_filter old_id (dataset_images b))
                       then Some (k + oi) else None)" .
  obtain e0 where "remap_annotation ann ?m oa = Inl e0"
    using dangling_fails [OF assms(2), of oi oa] m by auto
  with assms(1) have "\<exists>e. map_err (\<lambda>ann. remap_annotation ann ?m oa) (dataset_annotations b) = Inl e"
    by (rule map_err_fails)
  then obtain e where e: "remap_annotations (dataset_annotations b) ?m oa = Inl e"
    unfolding remap_annotations_map_err ..
  then have "\<exists>x \<in> set (dataset_annotations b). remap_annotation x ?m oa = Inl e"
    unfolding remap_annotations_map_err by (rule map_err_Inl_ex)
  then obtain x where "x \<in> set (dataset_annotations b)" and "remap_annotation x ?m oa = Inl e"
    ..
  moreover from this recs have "annotation_record x" by (simp add: list_all_iff)
  ultimately have cls: "e = ValueError AnnotationWithoutImageId
      \<or> (\<exists>k. e = ValueError (UnknownImageId k))"
    using annotation_record_Inl [of x ?m oa e] by simp
  have "merge_instances (JObj fa) (JObj fb) = Inl e"
    by (simp add: merge_instances_unfold [OF fa(2,3) fb(2,3)] off build e)
  then have "merge_instances a b = Inl e" using fa(1) fb(1) by simp
  with cls show "merge_instances a b = Inl (ValueError AnnotationWithoutImageId)
            \<or> (\<exists>k. merge_instances a b = Inl (ValueError (UnknownImageId k)))"
    by auto
qed

lemma example_dangling_lists:
  "dataset_images example_dangling = [JObj [(''id'', JInt 1), (''file_name'', JStr ''b1.png'')]]"
  "dataset_annotations example_dangling =
     [JObj [(''id'', JInt 1), (''image_id'', JInt 1)],
      JObj [(''id'', JInt 2), (''image_id'', JInt 7)]]"
  by (simp_all add: example_dangling_def dataset_images_def dataset_annotations_def list_of_def)

theorem merge_instances_dangling_reference_witness:
  "merge_instances example_a example_dangling = Inl (ValueError (UnknownImageId 7))"
proof -
  let ?ann = "JObj [(''id'', JInt 2), (''image_id'', JInt 7)]"
  have 1: "?ann \<in> set (dataset_annotations example_dangling)"
    by (simp add: example_dangling_lists)
  have 2: "dangling (List.map_filter old_id (dataset_images example_dangling)) ?ann"
    by (simp add: example_dangling_lists)
  have 3: "valid_dataset example_a
      \<and> validate_coco_like example_dangling ''Second JSON'' = Inr ()
      \<and> list_all typed_image (dataset_images example_dangling)
      \<and> list_all annotation_record (dataset_annotations example_dangling)"
    by (simp add: example_a_valid example_dangling_lists typed_image_def)
       (simp add: example_dangling_def)
  note t = merge_instances_dangling_reference [OF 1 2, of example_a]
  from t [THEN conjunct2] 3
  have "merge_instances example_a example_dangling = Inl (ValueError AnnotationWithoutImageId)
      \<or> (\<exists>k. merge_instances example_a example_dangling = Inl (ValueError (UnknownImageId k)))"
    by (rule mp)
  moreover have "merge_instances example_a example_dangling
      = Inl (ValueError (UnknownImageId 7))"
    by (simp add: merge_instances_def example_a_def example_dangling_def list_of_def
        get_max_id_def build_image_id_mapping_def remap_image_def remap_annotations_def
        remap_annotation_def offset_annotation_id_def deepcopy_def)
  ultimately show ?thesis by simp
qed










text \<open>
  Claim C8, at an annotation whose own id is 0: the \<^verbatim>\<open>or\<close> chain passes over the id as
  if it were absent, and the label is the secondary identifier, or the category id when
  there is none.
\<close>

theorem instance_label_id_zero:
  "instance_label [(''id'', JInt 0), (''category_id'', JInt 3)] = JInt 3
   \<and> instance_label [(''id'', JInt 0), (''instance_id'', JInt 7), (''category_id'', JInt 3)]
       = JInt 7"
  by (simp add: instance_label_def py_or_def py_get_def)

text \<open>
  Claim C7, at an image of height and width 2. A polygon segmentation is a list, so what
  \<^verbatim>\<open>frPyObjects\<close> returns for it is a list of encoded masks; the loop appends that list
  as one element, and \<^verbatim>\<open>merge\<close>, called outside the \<^verbatim>\<open>try\<close> block, fails on it. A
  dictionary without \<^verbatim>\<open>counts\<close> is appended as it is and \<^verbatim>\<open>merge\<close> fails on it too.
  Whatever the library computes, the result is an exception where the polygon can be
  encoded and the empty mask where it cannot, never the mask of the polygon.
\<close>

theorem ann_to_mask_polygon:
  "ann_to_mask lib 2 2
     [JObj [(''id'', JInt 1),
            (''segmentation'', JList [JList [JInt 0, JInt 0, JInt 0, JInt 2,
                                             JInt 2, JInt 2, JInt 2, JInt 0]])]]
     = (case encode_list lib [JList [JInt 0, JInt 0, JInt 0, JInt 2,
                                     JInt 2, JInt 2, JInt 2, JInt 0]] 2 2 of
          Inl e \<Rightarrow> Inr [[0, 0], [0, 0]]
        | Inr objs \<Rightarrow> Inl TypeError)
   \<and> ann_to_mask lib 2 2
        [JObj [(''id'', JInt 1), (''segmentation'', JObj [(''size'', JList [JInt 2, JInt 2])])]]
     = Inl KeyError"
  by (simp add: ann_to_mask_def py_get_def mask_merge_def zeros_def numeral_2_eq_2
      split: sum.splits)

section \<open>The store: what the merge leaves unchanged\<close>

lemma all_some_eq_Some:
  "all_some xs = Some ys \<longleftrightarrow> xs = map Some ys"
proof (induction xs arbitrary: ys rule: all_some.induct)
  case 1
  then show ?case by auto
next
  case (2 xs)
  then show ?case by auto
next
  case (3 x xs)
  then show ?case by (cases ys) auto
qed

lemma all_some_map_cong:
  assumes "all_some (map f xs) = Some ys" and "\<And>x y. x \<in> set xs \<Longrightarrow> f x = Some y \<Longrightarrow> g x = Some y"
  shows "all_some (map g xs) = Some ys"
  using assms
proof (induction xs arbitrary: ys)
  case Nil
  then show ?case by simp
next
  case (Cons x xs)
  from Cons.prems(1) obtain y ys' where y: "f x = Some y" and ys': "all_some (map f xs) = Some ys'"
    and ys: "ys = y # ys'"
    by (cases "f x") (auto simp: all_some_eq_Some)
  have "all_some (map g xs) = Some ys'"
    by (rule Cons.IH [OF ys']) (use Cons.prems(2) in auto)
  moreover have "g x = Some y" using Cons.prems(2) y by simp
  ultimately show ?case using ys by simp
qed

lemma all_some_map_mem:
  assumes "all_some (map f xs) = Some ys" and "x \<in> set xs"
  shows "\<exists>y. f x = Some y"
proof -
  from assms(1) have "map f xs = map Some ys" by (simp add: all_some_eq_Some)
  then have "f x \<in> set (map Some ys)" using assms(2) by (metis imageI set_map)
  then show ?thesis by auto
qed

lemma read_mono: "read n h v = Some j \<Longrightarrow> read (Suc n) h v = Some j"
proof (induction n arbitrary: v j)
  case 0
  then show ?case by (cases v) simp_all
next
  case (Suc n)
  show ?case
  proof (cases v)
    case (VRef a)
    with Suc.prems have a: "a < length h" by (simp split: if_splits)
    show ?thesis
    proof (cases "h ! a")
      case (OList vs)
      with Suc.prems VRef a obtain js where js: "all_some (map (read n h) vs) = Some js"
        and j: "j = JList js"
        by auto
      have "all_some (map (read (Suc n) h) vs) = Some js"
        by (rule all_some_map_cong [OF js]) (rule Suc.IH)
      with VRef a OList j show ?thesis by simp
    next
      case (ODict fs)
      with Suc.prems VRef a obtain js
        where js: "all_some (map (\<lambda>(k, v). map_option (Pair k) (read n h v)) fs) = Some js"
        and j: "j = JObj js"
        by auto
      have "all_some (map (\<lambda>(k, v). map_option (Pair k) (read (Suc n) h v)) fs) = Some js"
        by (rule all_some_map_cong [OF js]) (auto dest: Suc.IH)
      with VRef a ODict j show ?thesis by simp
    qed
  qed (use Suc.prems in simp_all)
qed

lemma read_mono_le: "read n h v = Some j \<Longrightarrow> n \<le> m \<Longrightarrow> read m h v = Some j"
  by (induction m) (auto simp: le_Suc_eq dest: read_mono)

lemma frame_nth: "frame h0 h \<Longrightarrow> a < length h0 \<Longrightarrow> h ! a = h0 ! a"
  unfolding frame_def by (metis nth_take)

lemma read_frame:
  "frame h0 h \<Longrightarrow> read n h0 v = Some j \<Longrightarrow> read n h v = Some j"
proof (induction n arbitrary: v j)
  case 0
  then show ?case by (cases v) simp_all
next
  case (Suc n)
  show ?case
  proof (cases v)
    case (VRef a)
    with Suc.prems have a0: "a < length h0" by (simp split: if_splits)
    with Suc.prems(1) have a: "a < length h" and same: "h ! a = h0 ! a"
      by (simp_all add: frame_nth) (simp add: frame_def)
    show ?thesis
    proof (cases "h0 ! a")
      case (OList vs)
      with Suc.prems(2) VRef a0 obtain js where js: "all_some (map (read n h0) vs) = Some js"
        and j: "j = JList js"
        by auto
      have "all_some (map (read n h) vs) = Some js"
        by (rule all_some_map_cong [OF js]) (rule Suc.IH [OF Suc.prems(1)])
      with VRef a same OList j show ?thesis by simp
    next
      case (ODict fs)
      with Suc.prems(2) VRef a0 obtain js
        where js: "all_some (map (\<lambda>(k, v). map_option (Pair k) (read n h0 v)) fs) = Some js"
        and j: "j = JObj js"
        by auto
      have "all_some (map (\<lambda>(k, v). map_option (Pair k) (read n h v)) fs) = Some js"
        by (rule all_some_map_cong [OF js]) (auto dest: Suc.IH [OF Suc.prems(1)])
      with VRef a same ODict j show ?thesis by simp
    qed
  qed (use Suc.prems in simp_all)
qed

lemma refs_in_iff: "refs_in lo hi rs \<longleftrightarrow> (\<forall>a \<in> set rs. lo \<le> a \<and> a < hi)"
  by (simp add: refs_in_def list_all_iff)

lemma refs_in_mono:
  assumes "refs_in lo hi rs" and "lo' \<le> lo" and "hi \<le> hi'"
  shows "refs_in lo' hi' rs"
  unfolding refs_in_iff
proof
  fix a assume "a \<in> set rs"
  with assms(1) have "lo \<le> a \<and> a < hi" by (simp add: refs_in_iff)
  with assms(2,3) show "lo' \<le> a \<and> a < hi'" by simp
qed

lemma refs_in_append [simp]:
  "refs_in lo hi (xs @ ys) \<longleftrightarrow> refs_in lo hi xs \<and> refs_in lo hi ys"
  by (auto simp: refs_in_iff)

lemma refs_in_Nil [simp]: "refs_in lo hi []"
  by (simp add: refs_in_def)

lemma closed_iff:
  "closed n h \<longleftrightarrow>
     (\<forall>a. n \<le> a \<and> a < length h \<longrightarrow> refs_in n (length h) (refs_obj (h ! a)))"
  by (auto simp: closed_def list_all_iff)

lemma refs_all_mono:
  assumes "list_all (\<lambda>ob. refs_in lo hi (refs_obj ob)) ext" and "lo' \<le> lo" and "hi \<le> hi'"
  shows "list_all (\<lambda>ob. refs_in lo' hi' (refs_obj ob)) ext"
  unfolding list_all_iff
proof
  fix ob assume "ob \<in> set ext"
  with assms(1) have "refs_in lo hi (refs_obj ob)" by (simp add: list_all_iff)
  then show "refs_in lo' hi' (refs_obj ob)" using assms(2,3) by (rule refs_in_mono)
qed

lemma store_ext:
  "store j h = (v, h') \<Longrightarrow>
     \<exists>ext. h' = h @ ext
       \<and> list_all (\<lambda>ob. refs_in (length h) (length h') (refs_obj ob)) ext
       \<and> refs_in (length h) (length h') (refs_val v)"
  "store_list xs h = (vs, h') \<Longrightarrow>
     \<exists>ext. h' = h @ ext
       \<and> list_all (\<lambda>ob. refs_in (length h) (length h') (refs_obj ob)) ext
       \<and> refs_in (length h) (length h') (concat (map refs_val vs))"
  "store_fields fs h = (gs, h') \<Longrightarrow>
     \<exists>ext. h' = h @ ext
       \<and> list_all (\<lambda>ob. refs_in (length h) (length h') (refs_obj ob)) ext
       \<and> refs_in (length h) (length h') (concat (map (\<lambda>(k, v). refs_val v) gs))"
proof (induction j h and xs h and fs h arbitrary: v h' and vs h' and gs h'
    rule: store_store_list_store_fields.induct)
  case (6 xs h)
  obtain vs h1 where s: "store_list xs h = (vs, h1)" by (cases "store_list xs h")
  from "6.IH" [OF s] obtain ext where ext: "h1 = h @ ext"
    "list_all (\<lambda>ob. refs_in (length h) (length h1) (refs_obj ob)) ext"
    "refs_in (length h) (length h1) (concat (map refs_val vs))"
    by blast
  from "6.prems" s have v: "v = VRef (length h1)" and h': "h' = h1 @ [OList vs]" by simp_all
  have "list_all (\<lambda>ob. refs_in (length h) (length h') (refs_obj ob)) (ext @ [OList vs])"
    using refs_all_mono [OF ext(2), of "length h" "length h'"]
      refs_in_mono [OF ext(3), of "length h" "length h'"] h'
    by simp
  moreover have "refs_in (length h) (length h') (refs_val v)"
    using v h' ext(1) by (simp add: refs_in_iff)
  ultimately show ?case using h' ext(1) by (intro exI [of _ "ext @ [OList vs]"]) simp
next
  case (7 fs h)
  obtain gs h1 where s: "store_fields fs h = (gs, h1)" by (cases "store_fields fs h")
  from "7.IH" [OF s] obtain ext where ext: "h1 = h @ ext"
    "list_all (\<lambda>ob. refs_in (length h) (length h1) (refs_obj ob)) ext"
    "refs_in (length h) (length h1) (concat (map (\<lambda>(k, v). refs_val v) gs))"
    by blast
  from "7.prems" s have v: "v = VRef (length h1)" and h': "h' = h1 @ [ODict gs]" by simp_all
  have "list_all (\<lambda>ob. refs_in (length h) (length h') (refs_obj ob)) (ext @ [ODict gs])"
    using refs_all_mono [OF ext(2), of "length h" "length h'"]
      refs_in_mono [OF ext(3), of "length h" "length h'"] h'
    by simp
  moreover have "refs_in (length h) (length h') (refs_val v)"
    using v h' ext(1) by (simp add: refs_in_iff)
  ultimately show ?case using h' ext(1) by (intro exI [of _ "ext @ [ODict gs]"]) simp
next
  case (9 x xs h)
  obtain v1 h1 where s1: "store x h = (v1, h1)" by (cases "store x h")
  obtain vs2 h2 where s2: "store_list xs h1 = (vs2, h2)" by (cases "store_list xs h1")
  from "9.IH"(1) [OF s1] obtain e1 where e1: "h1 = h @ e1"
    "list_all (\<lambda>ob. refs_in (length h) (length h1) (refs_obj ob)) e1"
    "refs_in (length h) (length h1) (refs_val v1)"
    by blast
  from "9.IH"(2) [OF s1 [symmetric] s2] obtain e2 where e2: "h2 = h1 @ e2"
    "list_all (\<lambda>ob. refs_in (length h1) (length h2) (refs_obj ob)) e2"
    "refs_in (length h1) (length h2) (concat (map refs_val vs2))"
    by blast
  from "9.prems" s1 s2 have vs: "vs = v1 # vs2" and h': "h' = h2" by simp_all
  have le: "length h \<le> length h1" "length h1 \<le> length h2" using e1(1) e2(1) by simp_all
  have "list_all (\<lambda>ob. refs_in (length h) (length h') (refs_obj ob)) (e1 @ e2)"
    using refs_all_mono [OF e1(2), of "length h" "length h'"]
      refs_all_mono [OF e2(2), of "length h" "length h'"] le h'
    by simp
  moreover have "refs_in (length h) (length h') (concat (map refs_val vs))"
    using refs_in_mono [OF e1(3), of "length h" "length h'"]
      refs_in_mono [OF e2(3), of "length h" "length h'"] le h' vs
    by simp
  ultimately show ?case using h' e1(1) e2(1) by (intro exI [of _ "e1 @ e2"]) simp
next
  case (11 k x fs h)
  obtain v1 h1 where s1: "store x h = (v1, h1)" by (cases "store x h")
  obtain gs2 h2 where s2: "store_fields fs h1 = (gs2, h2)" by (cases "store_fields fs h1")
  from "11.IH"(1) [OF s1] obtain e1 where e1: "h1 = h @ e1"
    "list_all (\<lambda>ob. refs_in (length h) (length h1) (refs_obj ob)) e1"
    "refs_in (length h) (length h1) (refs_val v1)"
    by blast
  from "11.IH"(2) [OF s1 [symmetric] s2] obtain e2 where e2: "h2 = h1 @ e2"
    "list_all (\<lambda>ob. refs_in (length h1) (length h2) (refs_obj ob)) e2"
    "refs_in (length h1) (length h2) (concat (map (\<lambda>(k, v). refs_val v) gs2))"
    by blast
  from "11.prems" s1 s2 have gs: "gs = (k, v1) # gs2" and h': "h' = h2" by simp_all
  have le: "length h \<le> length h1" "length h1 \<le> length h2" using e1(1) e2(1) by simp_all
  have "list_all (\<lambda>ob. refs_in (length h) (length h') (refs_obj ob)) (e1 @ e2)"
    using refs_all_mono [OF e1(2), of "length h" "length h'"]
      refs_all_mono [OF e2(2), of "length h" "length h'"] le h'
    by simp
  moreover have "refs_in (length h) (length h') (concat (map (\<lambda>(k, v). refs_val v) gs))"
    using refs_in_mono [OF e1(3), of "length h" "length h'"]
      refs_in_mono [OF e2(3), of "length h" "length h'"] le h' gs
    by simp
  ultimately show ?case using h' e1(1) e2(1) by (intro exI [of _ "e1 @ e2"]) simp
qed auto

lemma ok_return: "inv h0 h \<Longrightarrow> Q x h \<Longrightarrow> ok h0 h (hreturn x) Q"
  by (simp add: ok_def hreturn_def)

lemma ok_raise: "inv h0 h \<Longrightarrow> ok h0 h (hraise e) Q"
  by (simp add: ok_def hraise_def)

lemma ok_lift:
  assumes "inv h0 h" and "\<And>x. f h = Inr x \<Longrightarrow> Q x h"
  shows "ok h0 h (hlift f) Q"
  using assms by (cases "f h") (simp_all add: ok_def hlift_def)

lemma ok_bind:
  assumes m: "ok h0 h m Q"
    and f: "\<And>x h'. inv h0 h' \<Longrightarrow> length h \<le> length h' \<Longrightarrow> Q x h' \<Longrightarrow> ok h0 h' (f x) R"
  shows "ok h0 h (hbind m f) R"
proof (cases "m h")
  case None
  with m show ?thesis by (simp add: ok_def)
next
  case (Some p)
  obtain res h' where p: "p = (res, h')" by (cases p)
  from m Some p have i: "inv h0 h'" and l: "length h \<le> length h'"
    by (simp_all add: ok_def)
  show ?thesis
  proof (cases res)
    case (Inl e)
    with Some p i l show ?thesis by (simp add: ok_def hbind_def)
  next
    case (Inr x)
    with m Some p have "Q x h'" by (simp add: ok_def)
    from f [OF i l this] have fx: "ok h0 h' (f x) R" .
    show ?thesis
    proof (cases "f x h'")
      case None
      with fx show ?thesis by (simp add: ok_def)
    next
      case (Some q)
      obtain res2 h2 where q: "q = (res2, h2)" by (cases q)
      from fx Some q have "inv h0 h2" and "length h' \<le> length h2"
        and "case res2 of Inl e \<Rightarrow> True | Inr y \<Rightarrow> R y h2"
        by (simp_all add: ok_def)
      with l \<open>m h = Some p\<close> p Inr Some q show ?thesis
        by (simp add: ok_def hbind_def)
    qed
  qed
qed

lemma ok_post:
  assumes m: "ok h0 h m Q"
    and q: "\<And>x h'. inv h0 h' \<Longrightarrow> length h \<le> length h' \<Longrightarrow> Q x h' \<Longrightarrow> Q' x h'"
  shows "ok h0 h m Q'"
proof (cases "m h")
  case None
  with m show ?thesis by (simp add: ok_def)
next
  case (Some p)
  obtain res h' where p: "p = (res, h')" by (cases p)
  with m Some q show ?thesis
    by (cases res) (simp_all add: ok_def)
qed

lemma new_val_mono: "new_val h0 h v \<Longrightarrow> length h \<le> length h' \<Longrightarrow> new_val h0 h' v"
  using refs_in_mono [of "length h0" "length h" "refs_val v" "length h0" "length h'"]
  by (simp add: new_val_def)

lemma new_ref_new_val: "new_ref h0 h v \<Longrightarrow> new_val h0 h v"
  by (cases v) (simp_all add: new_val_def refs_in_iff)

lemma new_ref_mono: "new_ref h0 h v \<Longrightarrow> length h \<le> length h' \<Longrightarrow> new_ref h0 h' v"
  by (cases v) simp_all

lemma inv_refl: "inv h0 h0"
  by (simp add: inv_def frame_def closed_def)

lemma inv_append:
  assumes "inv h0 h"
    and "list_all (\<lambda>ob. refs_in (length h0) (length h + length ext) (refs_obj ob)) ext"
  shows "inv h0 (h @ ext)"
proof -
  from assms(1) have fr: "frame h0 h" and cl: "closed (length h0) h"
    by (simp_all add: inv_def)
  from fr have "frame h0 (h @ ext)" by (simp add: frame_def)
  moreover have "closed (length h0) (h @ ext)"
    unfolding closed_iff
  proof (intro allI impI)
    fix a assume a: "length h0 \<le> a \<and> a < length (h @ ext)"
    show "refs_in (length h0) (length (h @ ext)) (refs_obj ((h @ ext) ! a))"
    proof (cases "a < length h")
      case True
      with a cl have "refs_in (length h0) (length h) (refs_obj (h ! a))"
        by (simp add: closed_iff)
      then have "refs_in (length h0) (length (h @ ext)) (refs_obj (h ! a))"
        using refs_in_mono [of "length h0" "length h" "refs_obj (h ! a)" "length h0"
            "length (h @ ext)"]
        by simp
      with True show ?thesis by (simp add: nth_append)
    next
      case False
      with a have "a - length h < length ext" by auto
      then have "ext ! (a - length h) \<in> set ext" by simp
      with assms(2) have "refs_in (length h0) (length h + length ext)
          (refs_obj (ext ! (a - length h)))"
        by (simp add: list_all_iff)
      with False show ?thesis by (simp add: nth_append)
    qed
  qed
  ultimately show ?thesis by (simp add: inv_def)
qed

lemma inv_update:
  assumes "inv h0 h" and "length h0 \<le> a" and "a < length h"
    and "refs_in (length h0) (length h) (refs_obj ob)"
  shows "inv h0 (h[a := ob])"
proof -
  from assms(1) have fr: "frame h0 h" and cl: "closed (length h0) h"
    by (simp_all add: inv_def)
  from fr assms(2) have "frame h0 (h[a := ob])" by (simp add: frame_def)
  moreover have "closed (length h0) (h[a := ob])"
    unfolding closed_iff
  proof (intro allI impI)
    fix b assume b: "length h0 \<le> b \<and> b < length (h[a := ob])"
    show "refs_in (length h0) (length (h[a := ob])) (refs_obj (h[a := ob] ! b))"
    proof (cases "b = a")
      case True
      with assms(3,4) show ?thesis by simp
    next
      case False
      with b cl show ?thesis by (simp add: closed_iff)
    qed
  qed
  ultimately show ?thesis by (simp add: inv_def)
qed

lemma inv_closed_nth:
  "inv h0 h \<Longrightarrow> length h0 \<le> a \<Longrightarrow> a < length h \<Longrightarrow>
     refs_in (length h0) (length h) (refs_obj (h ! a))"
  by (simp add: inv_def closed_iff)

lemma ok_deepcopy:
  assumes i: "inv h0 h" and r: "read k h0 v = Some j" and k: "k \<le> fuel"
  shows "ok h0 h (h_deepcopy fuel v) (\<lambda>c h'. new_val h0 h' c)"
proof -
  from i have fr: "frame h0 h" by (simp add: inv_def)
  then have n0: "length h0 \<le> length h" by (simp add: frame_def)
  from read_frame [OF fr read_mono_le [OF r k]] have rd: "read fuel h v = Some j" .
  obtain c h' where st: "store j h = (c, h')" by (cases "store j h")
  from store_ext(1) [OF st] obtain ext where ext: "h' = h @ ext"
    "list_all (\<lambda>ob. refs_in (length h) (length h') (refs_obj ob)) ext"
    "refs_in (length h) (length h') (refs_val c)"
    by blast
  from refs_all_mono [OF ext(2) n0 order_refl] ext(1)
  have "list_all (\<lambda>ob. refs_in (length h0) (length h + length ext) (refs_obj ob)) ext"
    by simp
  from inv_append [OF i this] ext(1) have "inv h0 h'" by simp
  moreover from refs_in_mono [OF ext(3) n0 order_refl] have "new_val h0 h' c"
    by (simp add: new_val_def)
  moreover from ext(1) have "length h \<le> length h'" by simp
  ultimately show ?thesis
    using rd st by (simp add: ok_def h_deepcopy_def)
qed

lemma ok_new:
  assumes "inv h0 h" and "refs_in (length h0) (length h) (refs_obj ob)"
  shows "ok h0 h (h_new ob) (\<lambda>r h'. new_ref h0 h' r)"
proof -
  from assms(1) have n0: "length h0 \<le> length h" by (simp add: inv_def frame_def)
  from refs_in_mono [OF assms(2) order_refl, of "length h + length [ob]"]
  have "list_all (\<lambda>x. refs_in (length h0) (length h + length [ob]) (refs_obj x)) [ob]"
    by simp
  from inv_append [OF assms(1) this] have "inv h0 (h @ [ob])" .
  with n0 show ?thesis by (simp add: ok_def h_new_def)
qed

lemma set_update_cases:
  "p \<in> set (AList.update key x fs) \<Longrightarrow> p = (key, x) \<or> p \<in> set fs"
proof (induction fs)
  case Nil
  then show ?case by simp
next
  case (Cons q fs)
  show ?case
  proof (cases "fst q = key")
    case True
    with Cons.prems show ?thesis by auto
  next
    case False
    with Cons.prems have "p = q \<or> p \<in> set (AList.update key x fs)" by simp
    with Cons.IH show ?thesis by auto
  qed
qed

lemma set_delete_subset: "p \<in> set (AList.delete key fs) \<Longrightarrow> p \<in> set fs"
  by (induction fs) (auto split: if_splits)

lemma refs_dict_iff:
  "refs_in lo hi (refs_obj (ODict fs)) \<longleftrightarrow>
     (\<forall>p \<in> set fs. refs_in lo hi (refs_val (snd p)))"
  by (induction fs) (simp_all add: case_prod_beta)

lemma refs_update:
  assumes "refs_in lo hi (refs_obj (ODict fs))" and "refs_in lo hi (refs_val x)"
  shows "refs_in lo hi (refs_obj (ODict (AList.update key x fs)))"
  unfolding refs_dict_iff
proof
  fix p assume "p \<in> set (AList.update key x fs)"
  then have "p = (key, x) \<or> p \<in> set fs" by (rule set_update_cases)
  then show "refs_in lo hi (refs_val (snd p))"
  proof
    assume "p = (key, x)"
    with assms(2) show ?thesis by simp
  next
    assume "p \<in> set fs"
    with assms(1) [unfolded refs_dict_iff] show ?thesis by blast
  qed
qed

lemma refs_delete:
  assumes "refs_in lo hi (refs_obj (ODict fs))"
  shows "refs_in lo hi (refs_obj (ODict (AList.delete key fs)))"
  unfolding refs_dict_iff
proof
  fix p assume "p \<in> set (AList.delete key fs)"
  then have "p \<in> set fs" by (rule set_delete_subset)
  with assms [unfolded refs_dict_iff] show "refs_in lo hi (refs_val (snd p))" by blast
qed

lemma new_val_VRef: "new_val h0 h (VRef a) \<longleftrightarrow> length h0 \<le> a \<and> a < length h"
  by (simp add: new_val_def refs_in_iff)

lemma ok_setitem:
  assumes i: "inv h0 h" and d: "new_val h0 h d" and x: "new_val h0 h x"
  shows "ok h0 h (h_setitem d key x) (\<lambda>u h'. True)"
proof (cases d)
  case (VRef a)
  with d have a: "length h0 \<le> a" "a < length h" by (simp_all add: new_val_VRef)
  show ?thesis
  proof (cases "h ! a")
    case (OList xs)
    with VRef a i show ?thesis by (simp add: ok_def h_setitem_def)
  next
    case (ODict fs)
    from inv_closed_nth [OF i a] ODict
    have "refs_in (length h0) (length h) (refs_obj (ODict fs))" by simp
    from refs_update [OF this x [unfolded new_val_def]]
    have "refs_in (length h0) (length h) (refs_obj (ODict (AList.update key x fs)))" .
    from inv_update [OF i a this] VRef a ODict show ?thesis
      by (simp add: ok_def h_setitem_def)
  qed
qed (use i in \<open>simp_all add: ok_def h_setitem_def\<close>)

lemma ok_pop:
  assumes i: "inv h0 h" and d: "new_val h0 h d"
  shows "ok h0 h (h_pop d key) (\<lambda>u h'. True)"
proof (cases d)
  case (VRef a)
  with d have a: "length h0 \<le> a" "a < length h" by (simp_all add: new_val_VRef)
  show ?thesis
  proof (cases "h ! a")
    case (OList xs)
    with VRef a i show ?thesis by (simp add: ok_def h_pop_def)
  next
    case (ODict fs)
    from inv_closed_nth [OF i a] ODict
    have "refs_in (length h0) (length h) (refs_obj (ODict fs))" by simp
    from refs_delete [OF this]
    have "refs_in (length h0) (length h) (refs_obj (ODict (AList.delete key fs)))" .
    from inv_update [OF i a this] VRef a ODict show ?thesis
      by (simp add: ok_def h_pop_def)
  qed
qed (use i in \<open>simp_all add: ok_def h_pop_def\<close>)

lemma ok_append:
  assumes i: "inv h0 h" and l: "new_val h0 h l" and x: "new_val h0 h x"
  shows "ok h0 h (h_append l x) (\<lambda>u h'. True)"
proof (cases l)
  case (VRef a)
  with l have a: "length h0 \<le> a" "a < length h" by (simp_all add: new_val_VRef)
  show ?thesis
  proof (cases "h ! a")
    case (ODict fs)
    with VRef a i show ?thesis by (simp add: ok_def h_append_def)
  next
    case (OList xs)
    from inv_closed_nth [OF i a] OList
    have "refs_in (length h0) (length h) (refs_obj (OList xs))" by simp
    with x have "refs_in (length h0) (length h) (refs_obj (OList (xs @ [x])))"
      by (simp add: new_val_def)
    from inv_update [OF i a this] VRef a OList show ?thesis
      by (simp add: ok_def h_append_def)
  qed
qed (use i in \<open>simp_all add: ok_def h_append_def\<close>)

lemma new_items:
  assumes i: "inv h0 h" and l: "new_val h0 h l" and xs: "h_items l h = Inr xs"
  shows "refs_in (length h0) (length h) (concat (map refs_val xs))"
proof (cases l)
  case (VRef a)
  with l have a: "length h0 \<le> a" "a < length h" by (simp_all add: new_val_VRef)
  from xs VRef a have "h ! a = OList xs"
    by (cases "h ! a") (simp_all add: h_items_def)
  with inv_closed_nth [OF i a] show ?thesis by simp
qed (use xs in \<open>simp_all add: h_items_def\<close>)

lemma ok_concat:
  assumes i: "inv h0 h" and l1: "new_val h0 h l1" and l2: "new_val h0 h l2"
  shows "ok h0 h (h_concat l1 l2) (\<lambda>r h'. new_ref h0 h' r)"
  unfolding h_concat_def
proof (rule ok_bind [where Q = "\<lambda>xs h'. h' = h \<and> h_items l1 h = Inr xs"])
  show "ok h0 h (hlift (h_items l1)) (\<lambda>xs h'. h' = h \<and> h_items l1 h = Inr xs)"
    by (rule ok_lift [OF i]) simp
next
  fix xs h'
  assume "h' = h \<and> h_items l1 h = Inr xs"
  then have h': "h' = h" and xs: "h_items l1 h = Inr xs" by simp_all
  show "ok h0 h' (hbind (hlift (h_items l2)) (\<lambda>ys. h_new (OList (xs @ ys))))
          (\<lambda>r h'. new_ref h0 h' r)"
    unfolding h'
  proof (rule ok_bind [where Q = "\<lambda>ys h'. h' = h \<and> h_items l2 h = Inr ys"])
    show "ok h0 h (hlift (h_items l2)) (\<lambda>ys h'. h' = h \<and> h_items l2 h = Inr ys)"
      by (rule ok_lift [OF i]) simp
  next
    fix ys h''
    assume "h'' = h \<and> h_items l2 h = Inr ys"
    then have h'': "h'' = h" and ys: "h_items l2 h = Inr ys" by simp_all
    from new_items [OF i l1 xs] new_items [OF i l2 ys]
    have "refs_in (length h0) (length h) (refs_obj (OList (xs @ ys)))" by simp
    from ok_new [OF i this] show "ok h0 h'' (h_new (OList (xs @ ys))) (\<lambda>r h'. new_ref h0 h' r)"
      by (simp add: h'')
  qed
qed

lemma ok_bind_lift:
  assumes i: "inv h0 h" and g: "\<And>x. f h = Inr x \<Longrightarrow> ok h0 h (g x) R"
  shows "ok h0 h (hbind (hlift f) g) R"
proof (cases "f h")
  case (Inl e)
  with i show ?thesis by (simp add: ok_def hbind_def hlift_def)
next
  case (Inr x)
  from g [OF Inr] have "ok h0 h (g x) R" .
  with Inr show ?thesis by (simp add: ok_def hbind_def hlift_def)
qed

lemma read_VRef_dict:
  assumes "read k h0 (VRef a) = Some j" and "h0 ! a = ODict fs" and "p \<in> set fs"
  shows "\<exists>j'. read k h0 (snd p) = Some j'"
proof (cases k)
  case 0
  with assms(1) show ?thesis by simp
next
  case (Suc n)
  with assms(1,2) obtain js
    where js: "all_some (map (\<lambda>(k, v). map_option (Pair k) (read n h0 v)) fs) = Some js"
    by (auto split: if_splits)
  from all_some_map_mem [OF js assms(3)]
  obtain y where "(case p of (k, v) \<Rightarrow> map_option (Pair k) (read n h0 v)) = Some y" by blast
  then obtain j' where "read n h0 (snd p) = Some j'"
    by (cases p) auto
  from read_mono [OF this] Suc show ?thesis by blast
qed

lemma read_VRef_list:
  assumes "read k h0 (VRef a) = Some j" and "h0 ! a = OList xs" and "x \<in> set xs"
  shows "\<exists>j'. read k h0 x = Some j'"
proof (cases k)
  case 0
  with assms(1) show ?thesis by simp
next
  case (Suc n)
  with assms(1,2) obtain js where js: "all_some (map (read n h0) xs) = Some js"
    by (auto split: if_splits)
  from all_some_map_mem [OF js assms(3)] obtain j' where "read n h0 x = Some j'" by blast
  from read_mono [OF this] Suc show ?thesis by blast
qed

lemma read_VRef_bound: "read k h0 (VRef a) = Some j \<Longrightarrow> a < length h0"
  by (cases k) (simp_all split: if_splits)

lemma old_getitem:
  assumes fr: "frame h0 h" and r: "read k h0 v = Some j" and g: "h_getitem v key h = Inr x"
  shows "\<exists>j'. read k h0 x = Some j'"
proof (cases v)
  case (VRef a)
  from r VRef have a0: "a < length h0" by (simp add: read_VRef_bound)
  with fr have same: "h ! a = h0 ! a" by (rule frame_nth)
  from g VRef obtain fs where fs: "h ! a = ODict fs" and m: "map_of fs key = Some x"
    by (cases "h ! a") (auto simp: h_getitem_def split: if_splits option.splits)
  from m have "(key, x) \<in> set fs" by (rule map_of_SomeD)
  from read_VRef_dict [OF r [unfolded VRef] fs [unfolded same] this]
  show ?thesis by simp
qed (use g in \<open>simp_all add: h_getitem_def\<close>)

lemma old_items:
  assumes fr: "frame h0 h" and r: "read k h0 v = Some j" and g: "h_items v h = Inr xs"
    and x: "x \<in> set xs"
  shows "\<exists>j'. read k h0 x = Some j'"
proof (cases v)
  case (VRef a)
  from r VRef have a0: "a < length h0" by (simp add: read_VRef_bound)
  with fr have same: "h ! a = h0 ! a" by (rule frame_nth)
  from g VRef have xs: "h ! a = OList xs"
    by (cases "h ! a") (auto simp: h_items_def split: if_splits)
  from read_VRef_list [OF r [unfolded VRef] xs [unfolded same] x]
  show ?thesis .
qed (use g in \<open>simp_all add: h_items_def\<close>)

lemma old_fields:
  assumes fr: "frame h0 h" and r: "read k h0 v = Some j" and g: "h_fields v h = Inr fs"
    and p: "p \<in> set fs"
  shows "\<exists>j'. read k h0 (snd p) = Some j'"
proof (cases v)
  case (VRef a)
  from r VRef have a0: "a < length h0" by (simp add: read_VRef_bound)
  with fr have same: "h ! a = h0 ! a" by (rule frame_nth)
  from g VRef have fs: "h ! a = ODict fs"
    by (cases "h ! a") (auto simp: h_fields_def split: if_splits)
  from read_VRef_dict [OF r [unfolded VRef] fs [unfolded same] p]
  show ?thesis .
qed (use g in \<open>simp_all add: h_fields_def\<close>)

lemma inv_frame: "inv h0 h \<Longrightarrow> frame h0 h"
  by (simp add: inv_def)

lemma ok_copy_into:
  assumes i: "inv h0 h" and r: "read k h0 v = Some j" and k: "k \<le> fuel"
    and d: "new_val h0 h d"
  shows "ok h0 h (hbind (h_deepcopy fuel v) (\<lambda>c. h_setitem d key c)) (\<lambda>u h'. True)"
proof (rule ok_bind [OF ok_deepcopy [OF i r k]])
  fix c h'
  assume i': "inv h0 h'" and l: "length h \<le> length h'" and c: "new_val h0 h' c"
  from ok_setitem [OF i' new_val_mono [OF d l] c]
  show "ok h0 h' (h_setitem d key c) (\<lambda>u h'. True)" .
qed

lemma ok_remap_image:
  assumes i: "inv h0 h" and r: "read k h0 img = Some j" and k: "k \<le> fuel"
  shows "ok h0 h (h_remap_image fuel img off) (\<lambda>r h'. new_val h0 h' (fst r))"
  unfolding h_remap_image_def
proof (rule ok_bind_lift [OF i])
  fix present
  show "ok h0 h
     (if \<not> present then hraise (ValueError ImageWithoutId)
      else hbind (hlift (h_getitem img ''id'')) (\<lambda>v.
           hbind (hlift (\<lambda>h. h_int v)) (\<lambda>old_id.
             let new_id = old_id + off in
             hbind (h_deepcopy fuel img) (\<lambda>new_image.
             hbind (h_setitem new_image ''id'' (VInt new_id)) (\<lambda>_.
               hreturn (new_image, old_id, new_id))))))
     (\<lambda>r h'. new_val h0 h' (fst r))"
  proof (cases present)
    case False
    then show ?thesis by (simp add: ok_raise [OF i])
  next
    case True
    have "ok h0 h
       (hbind (hlift (h_getitem img ''id'')) (\<lambda>v.
           hbind (hlift (\<lambda>h. h_int v)) (\<lambda>old_id.
             let new_id = old_id + off in
             hbind (h_deepcopy fuel img) (\<lambda>new_image.
             hbind (h_setitem new_image ''id'' (VInt new_id)) (\<lambda>_.
               hreturn (new_image, old_id, new_id))))))
       (\<lambda>r h'. new_val h0 h' (fst r))"
    proof (rule ok_bind_lift [OF i], rule ok_bind_lift [OF i])
      fix v old_id
      show "ok h0 h
         (let new_id = old_id + off in
             hbind (h_deepcopy fuel img) (\<lambda>new_image.
             hbind (h_setitem new_image ''id'' (VInt new_id)) (\<lambda>_.
               hreturn (new_image, old_id, new_id))))
         (\<lambda>r h'. new_val h0 h' (fst r))"
        unfolding Let_def
      proof (rule ok_bind [OF ok_deepcopy [OF i r k]])
        fix c h1
        assume i1: "inv h0 h1" and c: "new_val h0 h1 c"
        have atom: "new_val h0 h1 (VInt (old_id + off))" by (simp add: new_val_def)
        show "ok h0 h1
           (hbind (h_setitem c ''id'' (VInt (old_id + off)))
              (\<lambda>_. hreturn (c, old_id, old_id + off)))
           (\<lambda>r h'. new_val h0 h' (fst r))"
        proof (rule ok_bind [OF ok_setitem [OF i1 c atom]])
          fix u h2
          assume i2: "inv h0 h2" and l: "length h1 \<le> length h2"
          from ok_return [OF i2, of "\<lambda>r h'. new_val h0 h' (fst r)" "(c, old_id, old_id + off)"]
            new_val_mono [OF c l]
          show "ok h0 h2 (hreturn (c, old_id, old_id + off)) (\<lambda>r h'. new_val h0 h' (fst r))"
            by simp
        qed
      qed
    qed
    with True show ?thesis by simp
  qed
qed

lemma ok_build_from:
  assumes "inv h0 h" and "new_val h0 h updated"
    and "\<forall>x \<in> set imgs. \<exists>j. read k h0 x = Some j" and "k \<le> fuel"
  shows "ok h0 h (h_build_image_id_mapping_from fuel updated m imgs off)
           (\<lambda>r h'. new_val h0 h' (fst r))"
  using assms
proof (induction imgs arbitrary: h m)
  case Nil
  then show ?case by (simp add: ok_return)
next
  case (Cons img imgs)
  from Cons.prems(3) obtain j where j: "read k h0 img = Some j" by auto
  from Cons.prems(3) have rest: "\<forall>x \<in> set imgs. \<exists>j. read k h0 x = Some j" by simp
  show ?case
    unfolding h_build_image_id_mapping_from.simps
  proof (rule ok_bind [OF ok_remap_image [OF Cons.prems(1) j Cons.prems(4)]])
    fix r :: "val \<times> int \<times> int" and h1
    assume i1: "inv h0 h1" and l1: "length h \<le> length h1" and c: "new_val h0 h1 (fst r)"
    obtain new_image old_id new_id where r: "r = (new_image, old_id, new_id)" by (cases r)
    from c r have c': "new_val h0 h1 new_image" by simp
    have "ok h0 h1
       (hbind (h_append updated new_image) (\<lambda>_.
          h_build_image_id_mapping_from fuel updated (m(old_id \<mapsto> new_id)) imgs off))
       (\<lambda>r h'. new_val h0 h' (fst r))"
    proof (rule ok_bind [OF ok_append [OF i1 new_val_mono [OF Cons.prems(2) l1] c']])
      fix u h2
      assume i2: "inv h0 h2" and l2: "length h1 \<le> length h2"
      from l1 l2 have "length h \<le> length h2" by simp
      from Cons.IH [OF i2 new_val_mono [OF Cons.prems(2) this] rest Cons.prems(4)]
      show "ok h0 h2
         (h_build_image_id_mapping_from fuel updated (m(old_id \<mapsto> new_id)) imgs off)
         (\<lambda>r h'. new_val h0 h' (fst r))" .
    qed
    then show "ok h0 h1
       (case r of (new_image, old_id, new_id) \<Rightarrow>
          hbind (h_append updated new_image) (\<lambda>_.
            h_build_image_id_mapping_from fuel updated (m(old_id \<mapsto> new_id)) imgs off))
       (\<lambda>r h'. new_val h0 h' (fst r))"
      by (simp add: r)
  qed
qed

lemma ok_build:
  assumes i: "inv h0 h" and r: "read k h0 images_b = Some j" and k: "k \<le> fuel"
  shows "ok h0 h (h_build_image_id_mapping fuel images_b off) (\<lambda>r h'. new_val h0 h' (fst r))"
  unfolding h_build_image_id_mapping_def
proof (rule ok_bind [OF ok_new [OF i, of "OList []"]])
  show "refs_in (length h0) (length h) (refs_obj (OList []))" by simp
next
  fix updated h1
  assume i1: "inv h0 h1" and u: "new_ref h0 h1 updated"
  show "ok h0 h1
     (hbind (hlift (h_items images_b)) (\<lambda>imgs.
        h_build_image_id_mapping_from fuel updated Map.empty imgs off))
     (\<lambda>r h'. new_val h0 h' (fst r))"
  proof (rule ok_bind_lift [OF i1])
    fix imgs assume "h_items images_b h1 = Inr imgs"
    then have "\<forall>x \<in> set imgs. \<exists>j. read k h0 x = Some j"
      using old_items [OF inv_frame [OF i1] r] by blast
    from ok_build_from [OF i1 new_ref_new_val [OF u] this k]
    show "ok h0 h1 (h_build_image_id_mapping_from fuel updated Map.empty imgs off)
       (\<lambda>r h'. new_val h0 h' (fst r))" .
  qed
qed

lemma ok_offset_annotation_id:
  assumes i: "inv h0 h" and n: "new_val h0 h new_ann"
  shows "ok h0 h (h_offset_annotation_id ann new_ann off) (\<lambda>u h'. True)"
proof -
  let ?inner = "hbind (hlift (h_getitem ann ''id'')) (\<lambda>v.
           hbind (hlift (\<lambda>h. h_int v)) (\<lambda>n.
             h_setitem new_ann ''id'' (VInt (n + off))))"
  have inner: "ok h0 h ?inner (\<lambda>u h'. True)"
  proof (rule ok_bind_lift [OF i], rule ok_bind_lift [OF i])
    fix v m
    have "new_val h0 h (VInt (m + off))" by (simp add: new_val_def)
    from ok_setitem [OF i n this]
    show "ok h0 h (h_setitem new_ann ''id'' (VInt (m + off))) (\<lambda>u h'. True)" .
  qed
  show ?thesis
  proof (cases "?inner h")
    case None
    with inner show ?thesis by (simp add: ok_def)
  next
    case (Some p)
    obtain res h1 where p: "p = (res, h1)" by (cases p)
    from inner Some p have i1: "inv h0 h1" and l1: "length h \<le> length h1"
      by (simp_all add: ok_def)
    from ok_pop [OF i1 new_val_mono [OF n l1], of "''id''"]
    have pop: "ok h0 h1 (h_pop new_ann ''id'') (\<lambda>u h'. True)" .
    have pop': "ok h0 h (\<lambda>_. h_pop new_ann ''id'' h1) (\<lambda>u h'. True)"
    proof (cases "h_pop new_ann ''id'' h1")
      case None
      with pop show ?thesis by (simp add: ok_def)
    next
      case (Some q)
      obtain res2 h2 where q: "q = (res2, h2)" by (cases q)
      from pop Some q have "inv h0 h2" and "length h1 \<le> length h2" by (simp_all add: ok_def)
      with l1 Some q show ?thesis by (cases res2) (simp_all add: ok_def)
    qed
    show ?thesis
    proof (cases res)
      case (Inr u)
      with Some p i1 l1 show ?thesis by (simp add: ok_def h_offset_annotation_id_def)
    next
      case (Inl e)
      show ?thesis
      proof (cases e)
        case TypeError
        with Inl Some p pop' show ?thesis by (simp add: ok_def h_offset_annotation_id_def)
      next
        case (ValueError msg)
        with Inl Some p pop' show ?thesis by (simp add: ok_def h_offset_annotation_id_def)
      qed (use Inl Some p i1 l1 in \<open>simp_all add: ok_def h_offset_annotation_id_def\<close>)
    qed
  qed
qed

lemma ok_remap_annotation:
  assumes i: "inv h0 h" and r: "read k h0 ann = Some j" and k: "k \<le> fuel"
  shows "ok h0 h (h_remap_annotation fuel ann m off) (\<lambda>r h'. new_val h0 h' r)"
  unfolding h_remap_annotation_def
proof (rule ok_bind_lift [OF i])
  fix present
  let ?rest = "hbind (hlift (h_getitem ann ''image_id'')) (\<lambda>v.
         hbind (hlift (\<lambda>h. h_int v)) (\<lambda>old_image_id.
           case m old_image_id of
             None \<Rightarrow> hraise (ValueError (UnknownImageId old_image_id))
           | Some new_image_id \<Rightarrow>
               hbind (h_deepcopy fuel ann) (\<lambda>new_ann.
               hbind (h_setitem new_ann ''image_id'' (VInt new_image_id)) (\<lambda>_.
               hbind (hlift (h_in ''id'' ann)) (\<lambda>has_id.
               hbind (if has_id then h_offset_annotation_id ann new_ann off
                      else hreturn ()) (\<lambda>_.
                 hreturn new_ann))))))"
  have rest: "ok h0 h ?rest (\<lambda>r h'. new_val h0 h' r)"
  proof (rule ok_bind_lift [OF i], rule ok_bind_lift [OF i])
    fix v old_image_id
    show "ok h0 h
       (case m old_image_id of
             None \<Rightarrow> hraise (ValueError (UnknownImageId old_image_id))
           | Some new_image_id \<Rightarrow>
               hbind (h_deepcopy fuel ann) (\<lambda>new_ann.
               hbind (h_setitem new_ann ''image_id'' (VInt new_image_id)) (\<lambda>_.
               hbind (hlift (h_in ''id'' ann)) (\<lambda>has_id.
               hbind (if has_id then h_offset_annotation_id ann new_ann off
                      else hreturn ()) (\<lambda>_.
                 hreturn new_ann)))))
       (\<lambda>r h'. new_val h0 h' r)"
    proof (cases "m old_image_id")
      case None
      then show ?thesis by (simp add: ok_raise [OF i])
    next
      case (Some new_image_id)
      have "ok h0 h
         (hbind (h_deepcopy fuel ann) (\<lambda>new_ann.
               hbind (h_setitem new_ann ''image_id'' (VInt new_image_id)) (\<lambda>_.
               hbind (hlift (h_in ''id'' ann)) (\<lambda>has_id.
               hbind (if has_id then h_offset_annotation_id ann new_ann off
                      else hreturn ()) (\<lambda>_.
                 hreturn new_ann)))))
         (\<lambda>r h'. new_val h0 h' r)"
      proof (rule ok_bind [OF ok_deepcopy [OF i r k]])
        fix c h1
        assume i1: "inv h0 h1" and c: "new_val h0 h1 c"
        have atom: "new_val h0 h1 (VInt new_image_id)" by (simp add: new_val_def)
        show "ok h0 h1
           (hbind (h_setitem c ''image_id'' (VInt new_image_id)) (\<lambda>_.
               hbind (hlift (h_in ''id'' ann)) (\<lambda>has_id.
               hbind (if has_id then h_offset_annotation_id ann c off
                      else hreturn ()) (\<lambda>_.
                 hreturn c))))
           (\<lambda>r h'. new_val h0 h' r)"
        proof (rule ok_bind [OF ok_setitem [OF i1 c atom]])
          fix u h2
          assume i2: "inv h0 h2" and l2: "length h1 \<le> length h2"
          note c2 = new_val_mono [OF c l2]
          show "ok h0 h2
             (hbind (hlift (h_in ''id'' ann)) (\<lambda>has_id.
               hbind (if has_id then h_offset_annotation_id ann c off
                      else hreturn ()) (\<lambda>_.
                 hreturn c)))
             (\<lambda>r h'. new_val h0 h' r)"
          proof (rule ok_bind_lift [OF i2])
            fix has_id
            have step: "ok h0 h2
               (if has_id then h_offset_annotation_id ann c off else hreturn ())
               (\<lambda>u h'. True)"
              using ok_offset_annotation_id [OF i2 c2, of ann off]
                ok_return [OF i2, of "\<lambda>u h'. True" "()"]
              by simp
            show "ok h0 h2
               (hbind (if has_id then h_offset_annotation_id ann c off else hreturn ())
                  (\<lambda>_. hreturn c))
               (\<lambda>r h'. new_val h0 h' r)"
            proof (rule ok_bind [OF step])
              fix u3 h3
              assume i3: "inv h0 h3" and l3: "length h2 \<le> length h3"
              from ok_return [OF i3, of "\<lambda>r h'. new_val h0 h' r" c] new_val_mono [OF c2 l3]
              show "ok h0 h3 (hreturn c) (\<lambda>r h'. new_val h0 h' r)" by simp
            qed
          qed
        qed
      qed
      with Some show ?thesis by simp
    qed
  qed
  show "ok h0 h
     (if \<not> present then hraise (ValueError AnnotationWithoutImageId) else ?rest)
     (\<lambda>r h'. new_val h0 h' r)"
  proof (cases present)
    case True
    with rest show ?thesis by simp
  next
    case False
    from ok_raise [OF i, of "ValueError AnnotationWithoutImageId" "\<lambda>r h'. new_val h0 h' r"]
      False
    show ?thesis by simp
  qed
qed

lemma ok_remap_annotations_from:
  assumes "inv h0 h" and "new_val h0 h updated"
    and "\<forall>x \<in> set anns. \<exists>j. read k h0 x = Some j" and "k \<le> fuel"
  shows "ok h0 h (h_remap_annotations_from fuel updated anns m off)
           (\<lambda>r h'. new_val h0 h' r)"
  using assms
proof (induction anns arbitrary: h)
  case Nil
  then show ?case by (simp add: ok_return)
next
  case (Cons ann anns)
  from Cons.prems(3) obtain j where j: "read k h0 ann = Some j" by auto
  from Cons.prems(3) have rest: "\<forall>x \<in> set anns. \<exists>j. read k h0 x = Some j" by simp
  show ?case
    unfolding h_remap_annotations_from.simps
  proof (rule ok_bind [OF ok_remap_annotation [OF Cons.prems(1) j Cons.prems(4)]])
    fix c h1
    assume i1: "inv h0 h1" and l1: "length h \<le> length h1" and c: "new_val h0 h1 c"
    show "ok h0 h1
       (hbind (h_append updated c) (\<lambda>_.
          h_remap_annotations_from fuel updated anns m off))
       (\<lambda>r h'. new_val h0 h' r)"
    proof (rule ok_bind [OF ok_append [OF i1 new_val_mono [OF Cons.prems(2) l1] c]])
      fix u h2
      assume i2: "inv h0 h2" and l2: "length h1 \<le> length h2"
      from l1 l2 have "length h \<le> length h2" by simp
      from Cons.IH [OF i2 new_val_mono [OF Cons.prems(2) this] rest Cons.prems(4)]
      show "ok h0 h2 (h_remap_annotations_from fuel updated anns m off)
         (\<lambda>r h'. new_val h0 h' r)" .
    qed
  qed
qed

lemma ok_remap_annotations:
  assumes i: "inv h0 h" and r: "read k h0 annotations_b = Some j" and k: "k \<le> fuel"
  shows "ok h0 h (h_remap_annotations fuel annotations_b m off) (\<lambda>r h'. new_val h0 h' r)"
  unfolding h_remap_annotations_def
proof (rule ok_bind [OF ok_new [OF i, of "OList []"]])
  show "refs_in (length h0) (length h) (refs_obj (OList []))" by simp
next
  fix updated h1
  assume i1: "inv h0 h1" and u: "new_ref h0 h1 updated"
  show "ok h0 h1
     (hbind (hlift (h_items annotations_b)) (\<lambda>anns.
        h_remap_annotations_from fuel updated anns m off))
     (\<lambda>r h'. new_val h0 h' r)"
  proof (rule ok_bind_lift [OF i1])
    fix anns assume "h_items annotations_b h1 = Inr anns"
    then have "\<forall>x \<in> set anns. \<exists>j. read k h0 x = Some j"
      using old_items [OF inv_frame [OF i1] r] by blast
    from ok_remap_annotations_from [OF i1 new_ref_new_val [OF u] this k]
    show "ok h0 h1 (h_remap_annotations_from fuel updated anns m off)
       (\<lambda>r h'. new_val h0 h' r)" .
  qed
qed

lemma ok_copy_common:
  assumes "inv h0 h" and r: "read k h0 a = Some j" and k: "k \<le> fuel"
    and "new_val h0 h merged"
  shows "ok h0 h (h_copy_common fuel a keys merged) (\<lambda>u h'. True)"
  using assms(1,4)
proof (induction keys arbitrary: h)
  case Nil
  then show ?case by (simp add: ok_return)
next
  case (Cons key keys)
  note i = Cons.prems(1) and d = Cons.prems(2)
  show ?case
    unfolding h_copy_common.simps
  proof (rule ok_bind_lift [OF i])
    fix present
    have step: "ok h0 h
       (if present then
          hbind (hlift (h_getitem a key)) (\<lambda>v.
          hbind (h_deepcopy fuel v) (\<lambda>c.
            h_setitem merged key c))
        else hreturn ())
       (\<lambda>u h'. True)"
    proof (cases present)
      case True
      have "ok h0 h
         (hbind (hlift (h_getitem a key)) (\<lambda>v.
          hbind (h_deepcopy fuel v) (\<lambda>c.
            h_setitem merged key c)))
         (\<lambda>u h'. True)"
      proof (rule ok_bind_lift [OF i])
        fix v assume "h_getitem a key h = Inr v"
        from old_getitem [OF inv_frame [OF i] r this]
        obtain j' where "read k h0 v = Some j'" ..
        from ok_copy_into [OF i this k d]
        show "ok h0 h (hbind (h_deepcopy fuel v) (\<lambda>c. h_setitem merged key c))
           (\<lambda>u h'. True)" .
      qed
      with True show ?thesis by simp
    next
      case False
      with ok_return [OF i, of "\<lambda>u h'. True" "()"] show ?thesis by simp
    qed
    show "ok h0 h
       (hbind (if present then
                 hbind (hlift (h_getitem a key)) (\<lambda>v.
                 hbind (h_deepcopy fuel v) (\<lambda>c.
                   h_setitem merged key c))
               else hreturn ()) (\<lambda>_.
          h_copy_common fuel a keys merged))
       (\<lambda>u h'. True)"
    proof (rule ok_bind [OF step])
      fix u h1 assume i1: "inv h0 h1" and l1: "length h \<le> length h1"
      from Cons.IH [OF i1 new_val_mono [OF d l1]]
      show "ok h0 h1 (h_copy_common fuel a keys merged) (\<lambda>u h'. True)" .
    qed
  qed
qed

lemma ok_carry_over:
  assumes "inv h0 h" and "new_val h0 h merged"
    and "\<forall>p \<in> set items. \<exists>j. read k h0 (snd p) = Some j" and k: "k \<le> fuel"
  shows "ok h0 h (h_carry_over fuel items merged) (\<lambda>u h'. True)"
  using assms(1,2,3)
proof (induction items arbitrary: h)
  case Nil
  then show ?case by (simp add: ok_return)
next
  case (Cons p items)
  obtain key v where p: "p = (key, v)" by (cases p)
  note i = Cons.prems(1) and d = Cons.prems(2)
  from Cons.prems(3) p obtain j where j: "read k h0 v = Some j" by auto
  from Cons.prems(3) have rest: "\<forall>p \<in> set items. \<exists>j. read k h0 (snd p) = Some j" by simp
  show ?case
    unfolding p h_carry_over.simps
  proof (rule ok_bind_lift [OF i])
    fix present
    have step: "ok h0 h
       (if present then hreturn ()
        else hbind (h_deepcopy fuel v) (\<lambda>c. h_setitem merged key c))
       (\<lambda>u h'. True)"
    proof (cases present)
      case True
      with ok_return [OF i, of "\<lambda>u h'. True" "()"] show ?thesis by simp
    next
      case False
      with ok_copy_into [OF i j k d, of key] show ?thesis by simp
    qed
    show "ok h0 h
       (hbind (if present then hreturn ()
               else hbind (h_deepcopy fuel v) (\<lambda>c. h_setitem merged key c)) (\<lambda>_.
          h_carry_over fuel items merged))
       (\<lambda>u h'. True)"
    proof (rule ok_bind [OF step])
      fix u h1 assume i1: "inv h0 h1" and l1: "length h \<le> length h1"
      from Cons.IH [OF i1 new_val_mono [OF d l1] rest]
      show "ok h0 h1 (h_carry_over fuel items merged) (\<lambda>u h'. True)" .
    qed
  qed
qed

lemma ok_merge:
  assumes ra: "read k h0 a = Some ja" and rb: "read k h0 b = Some jb" and k: "k \<le> fuel"
  shows "ok h0 h0 (h_merge_instances fuel a b) (\<lambda>r h'. new_ref h0 h' r)"
  unfolding h_merge_instances_def
  apply (rule ok_bind_lift [OF inv_refl])+
  subgoal premises p for u1 u2 images_a max_image_id_a annotations_a max_ann_id_a images_b
  proof -
    note f0 = inv_frame [OF inv_refl [of h0]]
    from old_getitem [OF f0 rb p(7)] obtain jib where rib: "read k h0 images_b = Some jib" ..
    show ?thesis
      apply (rule ok_bind [OF ok_build [OF inv_refl rib k]])
      subgoal premises q1 for r h1
      proof -
        obtain updated_images_b image_id_map where r: "r = (updated_images_b, image_id_map)"
          by (cases r)
        from q1(3) r have nu: "new_val h0 h1 updated_images_b" by simp
        show ?thesis
          unfolding r prod.case
          apply (rule ok_bind_lift [OF q1(1)])
          subgoal premises q2 for annotations_b
          proof -
            from old_getitem [OF inv_frame [OF q1(1)] rb q2]
            obtain jab where rab: "read k h0 annotations_b = Some jab" ..
            show ?thesis
              apply (rule ok_bind [OF ok_remap_annotations [OF q1(1) rab k]])
              subgoal premises q3 for updated_annotations_b h2
              proof -
                have e: "refs_in (length h0) (length h2) (refs_obj (ODict []))" by simp
                note nu2 = new_val_mono [OF nu q3(2)]
                show ?thesis
                  apply (rule ok_bind [OF ok_new [OF q3(1) e]])
                  subgoal premises q4 for merged h3
                  proof -
                    note m3 = new_ref_new_val [OF q4(3)]
                    note nu3 = new_val_mono [OF nu2 q4(2)]
                    note na3 = new_val_mono [OF q3(3) q4(2)]
                    show ?thesis
                      apply (rule ok_bind [OF ok_copy_common [OF q4(1) ra k m3]])
                      subgoal premises q5 for u5 h4
                        apply (rule ok_bind_lift [OF q5(1)])
                        subgoal premises q5a for images_a2
                        proof -
                          from old_getitem [OF inv_frame [OF q5(1)] ra q5a]
                          obtain jia where ria: "read k h0 images_a2 = Some jia" ..
                          show ?thesis
                            apply (rule ok_bind [OF ok_deepcopy [OF q5(1) ria k]])
                            subgoal premises q6 for images_copy h5
                            proof -
                              from q5(2) q6(2) have l35: "length h3 \<le> length h5" by simp
                              note nu5 = new_val_mono [OF nu3 l35]
                              note na5 = new_val_mono [OF na3 l35]
                              note m5 = new_ref_mono [OF q4(3) l35]
                              show ?thesis
                                apply (rule ok_bind [OF ok_concat [OF q6(1) q6(3) nu5]])
                                subgoal premises q7 for images h6
                                  apply (rule ok_bind [OF ok_setitem [OF q7(1)
                                    new_val_mono [OF new_ref_new_val [OF m5] q7(2)]
                                    new_ref_new_val [OF q7(3)]]])
                                  subgoal premises q8 for u8 h7
                                    apply (rule ok_bind_lift [OF q8(1)])
                                    subgoal premises q8a for annotations_a2
                                    proof -
                                      from old_getitem [OF inv_frame [OF q8(1)] ra q8a]
                                      obtain jaa where
                                        raa: "read k h0 annotations_a2 = Some jaa" ..
                                      from q7(2) q8(2) have l57: "length h5 \<le> length h7"
                                        by simp
                                      note na7 = new_val_mono [OF na5 l57]
                                      note m7 = new_ref_mono [OF m5 l57]
                                      show ?thesis
                                        apply (rule ok_bind [OF ok_deepcopy [OF q8(1) raa k]])
                                        subgoal premises q9 for annotations_copy h8
                                          apply (rule ok_bind [OF ok_concat [OF q9(1) q9(3)
                                            new_val_mono [OF na7 q9(2)]]])
                                          subgoal premises q10 for annotations h9
                                          proof -
                                            from q9(2) q10(2)
                                            have l79: "length h7 \<le> length h9" by simp
                                            note m9 = new_ref_mono [OF m7 l79]
                                            show ?thesis
                                              apply (rule ok_bind [OF ok_setitem [OF q10(1)
                                                new_ref_new_val [OF m9]
                                                new_ref_new_val [OF q10(3)]]])
                                              subgoal premises q11 for u11 h10
                                                apply (rule ok_bind_lift [OF q11(1)])
                                                subgoal premises q12 for items_a
                                                proof -
                                                  note m10 = new_ref_mono [OF m9 q11(2)]
                                                  have old: "\<forall>p \<in> set items_a.
                                                      \<exists>j. read k h0 (snd p) = Some j"
                                                    using old_fields
                                                      [OF inv_frame [OF q11(1)] ra q12]
                                                    by blast
                                                  show ?thesis
                                                    apply (rule ok_bind [OF ok_carry_over
                                                      [OF q11(1) new_ref_new_val [OF m10]
                                                        old k]])
                                                    subgoal premises q13 for u13 h11
                                                      using ok_return [OF q13(1),
                                                        of "\<lambda>r h'. new_ref h0 h' r" merged]
                                                        new_ref_mono [OF m10 q13(2)]
                                                      by simp
                                                    done
                                                qed
                                                done
                                              done
                                          qed
                                          done
                                        done
                                    qed
                                    done
                                  done
                                done
                            qed
                            done
                        qed
                        done
                      done
                  qed
                  done
              qed
              done
          qed
          done
      qed
      done
  qed
  done

lemma reach_new:
  assumes c: "closed n0 h"
  shows "n0 \<le> p \<Longrightarrow> p < length h \<Longrightarrow>
    list_all (\<lambda>q. n0 \<le> q \<and> q < length h) (reach n h p)"
proof (induction n arbitrary: p)
  case 0
  then show ?case by simp
next
  case (Suc n)
  from c Suc.prems have "refs_in n0 (length h) (refs_obj (h ! p))"
    by (simp add: closed_iff)
  then have "\<forall>q \<in> set (refs_obj (h ! p)). n0 \<le> q \<and> q < length h"
    by (simp add: refs_in_iff)
  then have "\<forall>q \<in> set (refs_obj (h ! p)).
      list_all (\<lambda>q. n0 \<le> q \<and> q < length h) (reach n h q)"
    using Suc.IH by blast
  with Suc.prems show ?case by (simp add: list_all_iff)
qed

lemma store_frame:
  "store j h = (v, h') \<Longrightarrow> frame h h'"
  "store_list xs h = (vs, h') \<Longrightarrow> frame h h'"
  "store_fields fs h = (gs, h') \<Longrightarrow> frame h h'"
  using store_ext(1) [of j h v h'] store_ext(2) [of xs h vs h'] store_ext(3) [of fs h gs h']
  by (auto simp: frame_def)

lemma read_frame_le:
  assumes "frame h0 h" and "read n h0 v = Some j" and "n \<le> m"
  shows "read m h v = Some j"
  using read_mono_le [OF read_frame [OF assms(1,2)] assms(3)] .

text \<open>
  A document placed in the store is read back from the value that \<open>store\<close> returns: the
  values that stand for loaded documents are readable.
\<close>

lemma read_store:
  "store j h = (v, h') \<Longrightarrow> \<exists>n. read n h' v = Some j"
  "store_list xs h = (vs, h') \<Longrightarrow> \<exists>n. all_some (map (read n h') vs) = Some xs"
  "store_fields fs h = (gs, h') \<Longrightarrow>
     \<exists>n. all_some (map (\<lambda>(k, v). map_option (Pair k) (read n h' v)) gs) = Some fs"
proof (induction j h and xs h and fs h arbitrary: v h' and vs h' and gs h'
    rule: store_store_list_store_fields.induct)
  case (6 xs h)
  obtain vs h1 where s: "store_list xs h = (vs, h1)" by (cases "store_list xs h")
  from "6.IH" [OF s] obtain n where n: "all_some (map (read n h1) vs) = Some xs" ..
  from "6.prems" s have v: "v = VRef (length h1)" and h': "h' = h1 @ [OList vs]" by simp_all
  have fr: "frame h1 h'" by (simp add: h' frame_def)
  have "all_some (map (read n h') vs) = Some xs"
    by (rule all_some_map_cong [OF n]) (rule read_frame [OF fr])
  then have "read (Suc n) h' v = Some (JList xs)" by (simp add: v h')
  then show ?case ..
next
  case (7 fs h)
  obtain gs h1 where s: "store_fields fs h = (gs, h1)" by (cases "store_fields fs h")
  from "7.IH" [OF s] obtain n
    where n: "all_some (map (\<lambda>(k, v). map_option (Pair k) (read n h1 v)) gs) = Some fs" ..
  from "7.prems" s have v: "v = VRef (length h1)" and h': "h' = h1 @ [ODict gs]" by simp_all
  have fr: "frame h1 h'" by (simp add: h' frame_def)
  have "all_some (map (\<lambda>(k, v). map_option (Pair k) (read n h' v)) gs) = Some fs"
  proof (rule all_some_map_cong [OF n])
    fix p :: "string \<times> val" and y
    assume "(case p of (k, v) \<Rightarrow> map_option (Pair k) (read n h1 v)) = Some y"
    then show "(case p of (k, v) \<Rightarrow> map_option (Pair k) (read n h' v)) = Some y"
      by (cases p) (auto simp: read_frame [OF fr])
  qed
  then have "read (Suc n) h' v = Some (JObj fs)" by (simp add: v h')
  then show ?case ..
next
  case (9 x xs h)
  obtain w h1 where s1: "store x h = (w, h1)" by (cases "store x h")
  obtain ws h2 where s2: "store_list xs h1 = (ws, h2)" by (cases "store_list xs h1")
  from "9.IH"(1) [OF s1] obtain n1 where n1: "read n1 h1 w = Some x" ..
  from "9.IH"(2) [OF s1 [symmetric] s2] obtain n2
    where n2: "all_some (map (read n2 h2) ws) = Some xs" ..
  from "9.prems" s1 s2 have vs: "vs = w # ws" and h': "h' = h2" by simp_all
  note fr = store_frame(2) [OF s2]
  have a: "read (max n1 n2) h2 w = Some x"
    by (rule read_frame_le [OF fr n1]) simp
  have b: "all_some (map (read (max n1 n2) h2) ws) = Some xs"
    by (rule all_some_map_cong [OF n2]) (rule read_mono_le, assumption, simp)
  from a b have "all_some (map (read (max n1 n2) h') vs) = Some (x # xs)"
    by (simp add: vs h')
  then show ?case ..
next
  case (11 k x fs h)
  obtain w h1 where s1: "store x h = (w, h1)" by (cases "store x h")
  obtain ws h2 where s2: "store_fields fs h1 = (ws, h2)" by (cases "store_fields fs h1")
  from "11.IH"(1) [OF s1] obtain n1 where n1: "read n1 h1 w = Some x" ..
  from "11.IH"(2) [OF s1 [symmetric] s2] obtain n2
    where n2: "all_some (map (\<lambda>(k, v). map_option (Pair k) (read n2 h2 v)) ws) = Some fs" ..
  from "11.prems" s1 s2 have gs: "gs = (k, w) # ws" and h': "h' = h2" by simp_all
  note fr = store_frame(3) [OF s2]
  have a: "read (max n1 n2) h2 w = Some x"
    by (rule read_frame_le [OF fr n1]) simp
  have b: "all_some (map (\<lambda>(k, v). map_option (Pair k) (read (max n1 n2) h2 v)) ws) = Some fs"
  proof (rule all_some_map_cong [OF n2])
    fix p :: "string \<times> val" and y
    assume "(case p of (k, v) \<Rightarrow> map_option (Pair k) (read n2 h2 v)) = Some y"
    then show "(case p of (k, v) \<Rightarrow> map_option (Pair k) (read (max n1 n2) h2 v)) = Some y"
      by (cases p) (auto simp: read_mono_le [of n2 h2 _ _ "max n1 n2"])
  qed
  from a b
  have "all_some (map (\<lambda>(k, v). map_option (Pair k) (read (max n1 n2) h' v)) gs)
      = Some ((k, x) # fs)"
    by (simp add: gs h')
  then show ?case ..
qed (auto intro: exI [of _ 0])

lemma loaded_readable:
  assumes "store ja h = (a, h1)" and "store jb h1 = (b, h0)"
  shows "\<exists>k. read k h0 a = Some ja \<and> read k h0 b = Some jb"
proof -
  from read_store(1) [OF assms(1)] obtain n1 where n1: "read n1 h1 a = Some ja" ..
  from read_store(1) [OF assms(2)] obtain n2 where n2: "read n2 h0 b = Some jb" ..
  have "read (max n1 n2) h0 a = Some ja"
    by (rule read_frame_le [OF store_frame(1) [OF assms(2)] n1]) simp
  moreover have "read (max n1 n2) h0 b = Some jb"
    by (rule read_mono_le [OF n2]) simp
  ultimately show ?thesis by blast
qed

text \<open>
  Claim C10. Let the two datasets be objects \<open>a\<close> and \<open>b\<close> of a store \<open>h0\<close> (they may
  share objects, and may be the same object). When the call receives a copying depth that
  covers them, it comes to an end, with an exception or with a result, and the store it
  leaves begins with \<open>h0\<close>: no object that existed before the call was written to, so
  both datasets read as before, also when the call raises. A result is the address of an
  object made by the call, and every address met by following references from it, to any
  depth, is the address of an object made by the call: no record of the output is a record
  of an input.
\<close>

theorem merge_instances_frame:
  assumes "read k h0 a = Some ja" and "read k h0 b = Some jb" and "k \<le> fuel"
  shows "\<exists>res h'. h_merge_instances fuel a b h0 = Some (res, h')
           \<and> length h0 \<le> length h' \<and> take (length h0) h' = h0
           \<and> read k h' a = Some ja \<and> read k h' b = Some jb
           \<and> (case res of
                 Inl e \<Rightarrow> True
               | Inr r \<Rightarrow> \<exists>p. r = VRef p
                   \<and> list_all (\<lambda>q. length h0 \<le> q \<and> q < length h') (reach n h' p))"
proof (cases "h_merge_instances fuel a b h0")
  case None
  with ok_merge [OF assms] show ?thesis by (simp add: ok_def)
next
  case (Some p)
  obtain res h' where p: "p = (res, h')" by (cases p)
  from ok_merge [OF assms] Some p have i: "inv h0 h'"
    and post: "case res of Inl e \<Rightarrow> True | Inr r \<Rightarrow> new_ref h0 h' r"
    by (simp_all add: ok_def)
  from i have fr: "frame h0 h'" and cl: "closed (length h0) h'" by (simp_all add: inv_def)
  note ra = read_frame [OF fr assms(1)] and rb = read_frame [OF fr assms(2)]
  have fresh: "case res of
                 Inl e \<Rightarrow> True
               | Inr r \<Rightarrow> \<exists>p. r = VRef p
                   \<and> list_all (\<lambda>q. length h0 \<le> q \<and> q < length h') (reach n h' p)"
  proof (cases res)
    case (Inl e)
    then show ?thesis by simp
  next
    case (Inr r)
    with post have "new_ref h0 h' r" by simp
    then obtain q where r: "r = VRef q" and q: "length h0 \<le> q" "q < length h'"
      by (cases r) simp_all
    from reach_new [OF cl q] Inr r show ?thesis by simp
  qed
  from fr have "length h0 \<le> length h'" and "take (length h0) h' = h0"
    by (simp_all add: frame_def)
  with Some p ra rb fresh show ?thesis by simp
qed

theorem merge_instances_frame_witness:
  "read 3 (snd example_heap) (fst example_heap_a) = Some example_a
   \<and> read 3 (snd example_heap) (fst example_heap) = Some example_b
   \<and> (\<exists>res h'. h_merge_instances 3 (fst example_heap_a) (fst example_heap) (snd example_heap)
          = Some (res, h')
        \<and> length (snd example_heap) \<le> length h'
        \<and> take (length (snd example_heap)) h' = snd example_heap
        \<and> read 3 h' (fst example_heap_a) = Some example_a
        \<and> read 3 h' (fst example_heap) = Some example_b
        \<and> (case res of
              Inl e \<Rightarrow> True
            | Inr r \<Rightarrow> \<exists>p. r = VRef p
                \<and> list_all (\<lambda>q. length (snd example_heap) \<le> q \<and> q < length h')
                     (reach 3 h' p)))"
proof (intro conjI)
  show ra: "read 3 (snd example_heap) (fst example_heap_a) = Some example_a"
    by code_simp
  show rb: "read 3 (snd example_heap) (fst example_heap) = Some example_b"
    by code_simp
  show "\<exists>res h'. h_merge_instances 3 (fst example_heap_a) (fst example_heap) (snd example_heap)
          = Some (res, h')
        \<and> length (snd example_heap) \<le> length h'
        \<and> take (length (snd example_heap)) h' = snd example_heap
        \<and> read 3 h' (fst example_heap_a) = Some example_a
        \<and> read 3 h' (fst example_heap) = Some example_b
        \<and> (case res of
              Inl e \<Rightarrow> True
            | Inr r \<Rightarrow> \<exists>p. r = VRef p
                \<and> list_all (\<lambda>q. length (snd example_heap) \<le> q \<and> q < length h')
                     (reach 3 h' p))"
    by (rule merge_instances_frame [OF ra rb order_refl])
qed

text \<open>
  On the example store the call returns a new object, and what is read from it is the
  dataset that the merge of the two documents gives.
\<close>

lemma h_merge_instances_example:
  "(case h_merge_instances 3 (fst example_heap_a) (fst example_heap) (snd example_heap) of
      Some (Inr r, h') \<Rightarrow> map_option Inr (read 3 h' r) = Some (merge_instances example_a example_b)
    | _ \<Rightarrow> False)"
  by code_simp

end
